theory Spec2Isabelle
  imports Main
begin

section \<open>Python values used by \<open>src/replace.py\<close>\<close>

text \<open>
  Strings are \<open>char list\<close>, over the 256 characters of \<open>char\<close>; positions and lengths
  are Python integers, hence \<open>int\<close>. Indices produced by \<open>enumerate\<close> are natural
  numbers.
\<close>

datatype error = IndexError | ZeroDivisionError

text \<open>The slice \<open>s[i:j]\<close>: a negative bound counts from the end, every bound is clamped
  to \<open>0 .. len(s)\<close>, and a stop before the start gives the empty string.\<close>

definition py_slice :: "'a list \<Rightarrow> int \<Rightarrow> int \<Rightarrow> 'a list" where
  "py_slice s i j =
     (let n = int (length s);
          a = (if i < 0 then max 0 (i + n) else min i n);
          b = (if j < 0 then max 0 (j + n) else min j n)
      in take (nat (b - a)) (drop (nat a) s))"

text \<open>The slice \<open>s[i:]\<close>.\<close>

definition py_slice_from :: "'a list \<Rightarrow> int \<Rightarrow> 'a list" where
  "py_slice_from s i = py_slice s i (int (length s))"

text \<open>\<open>str.isspace\<close> on one character, for the characters below 256.\<close>

definition py_isspace :: "char \<Rightarrow> bool" where
  "py_isspace c = (c \<in> set [CHR 0x09, CHR 0x0A, CHR 0x0B, CHR 0x0C, CHR 0x0D,
                               CHR 0x1C, CHR 0x1D, CHR 0x1E, CHR 0x1F, CHR 0x20,
                               CHR 0x85, CHR 0xA0])"

text \<open>\<open>str.strip()\<close>.\<close>

definition py_strip :: "string \<Rightarrow> string" where
  "py_strip s = rev (dropWhile py_isspace (rev (dropWhile py_isspace s)))"

section \<open>\<open>TemplateRenderer\<close>\<close>

subsection \<open>\<open>PLACEHOLDER_PATTERN = re.compile(r'\{\{(.+?)}}')\<close>\<close>

text \<open>A match object: \<open>start()\<close>, \<open>end()\<close> and \<open>group(1)\<close>.\<close>

record match =
  m_start :: int
  m_end :: int
  m_group1 :: string

text \<open>
  The part \<open>(.+?)}}\<close> of the pattern, run on the text that follows the two opening
  braces. The lazy quantifier takes one character, which must not be a newline (the
  pattern is compiled without DOTALL), then tries the two closing braces, and takes one
  more character each time they are not there. The result is group 1.
\<close>

fun lazy_group :: "string \<Rightarrow> string option" where
  "lazy_group [] = None"
| "lazy_group (c # cs) =
     (if c = CHR 0x0A then None
      else if take 2 cs = ''}}'' then Some [c]
      else map_option ((#) c) (lazy_group cs))"

text \<open>The whole pattern tried at the head of a string.\<close>

definition match_here :: "string \<Rightarrow> string option" where
  "match_here s = (if take 2 s = ''{{'' then lazy_group (drop 2 s) else None)"

text \<open>
  \<open>finditer\<close>: the scan tries each position from left to right and resumes after the end
  of a match; \<open>pos\<close> is the offset of the remaining text in the whole string.
\<close>

fun finditer_from :: "int \<Rightarrow> string \<Rightarrow> match list" where
  "finditer_from pos [] = []"
| "finditer_from pos (c # cs) =
     (case match_here (c # cs) of
        None \<Rightarrow> finditer_from (pos + 1) cs
      | Some g \<Rightarrow>
          \<lparr>m_start = pos, m_end = pos + 4 + int (length g), m_group1 = g\<rparr>
            # finditer_from (pos + 4 + int (length g)) (drop (3 + length g) cs))"

definition finditer :: "string \<Rightarrow> match list" where
  "finditer all_text = finditer_from 0 all_text"

subsection \<open>\<open>cal_render_position\<close>\<close>

record placeholder_info =
  original_start :: int
  original_length :: int
  rendered_start :: int
  rendered_length :: int
  placeholder :: string
  rendered_value :: string

text \<open>
  The context maps a key to any Python value; \<open>str_of\<close> stands for the builtin \<open>str\<close> on
  those values. A missing key gives the default \<open>''\<close>, and \<open>str('')\<close> is \<open>''\<close>.
\<close>

definition context_get_str :: "('v \<Rightarrow> string) \<Rightarrow> (string \<rightharpoonup> 'v) \<Rightarrow> string \<Rightarrow> string" where
  "context_get_str str_of context key =
     (case context key of None \<Rightarrow> [] | Some v \<Rightarrow> str_of v)"

text \<open>The body of the loop over the matches, on the variables
  \<open>(rendered_text, last_end, placeholder_list)\<close>.\<close>

fun render_matches ::
  "('v \<Rightarrow> string) \<Rightarrow> (string \<rightharpoonup> 'v) \<Rightarrow> string \<Rightarrow> match list \<Rightarrow>
   string \<times> int \<times> placeholder_info list \<Rightarrow> string \<times> int \<times> placeholder_info list" where
  "render_matches str_of context all_text [] st = st"
| "render_matches str_of context all_text (m # ms) (rendered_text, last_end, placeholder_list) =
     (let rendered_text1 = rendered_text @ py_slice all_text last_end (m_start m);
          placeholder_text = py_strip (m_group1 m);
          value = context_get_str str_of context placeholder_text;
          ph = \<lparr>original_start = m_start m,
                original_length = m_end m - m_start m,
                rendered_start = int (length rendered_text1),
                rendered_length = int (length value),
                placeholder = placeholder_text,
                rendered_value = value\<rparr>
      in render_matches str_of context all_text ms
           (rendered_text1 @ value, m_end m, placeholder_list @ [ph]))"

definition cal_render_position ::
  "('v \<Rightarrow> string) \<Rightarrow> (string \<rightharpoonup> 'v) \<Rightarrow> string \<Rightarrow> string \<times> placeholder_info list" where
  "cal_render_position str_of context all_text =
     (case render_matches str_of context all_text (finditer all_text) ([], 0, []) of
        (rendered_text, last_end, placeholder_list) \<Rightarrow>
          (rendered_text @ py_slice_from all_text last_end, placeholder_list))"

section \<open>Floating point: \<open>round(part_len / total_covered_len * rend_len)\<close>\<close>

text \<open>
  A binary64 value is kept as a pair \<open>(m, e)\<close> that stands for \<open>m * 2 ^ e\<close>. Every
  operation rounds its exact result to 53 significant bits, ties to even, as IEEE 754
  does. The exponent is not bounded: the operands here are lengths of strings, which
  are below \<open>2 ^ 63\<close>, so no result overflows or is subnormal.
\<close>

type_synonym binary64 = "int \<times> int"

text \<open>\<open>int.bit_length()\<close> of a natural number.\<close>

fun bit_length :: "nat \<Rightarrow> nat" where
  "bit_length n = (if n = 0 then 0 else Suc (bit_length (n div 2)))"

declare bit_length.simps [simp del]

text \<open>The quotient \<open>n / d\<close> (with \<open>0 < d\<close>) rounded to the nearest integer, ties to even.\<close>

definition rne_div :: "int \<Rightarrow> int \<Rightarrow> int" where
  "rne_div n d =
     (let q = n div d; r = n mod d
      in if 2 * r < d then q
         else if d < 2 * r then q + 1
         else if even q then q else q + 1)"

text \<open>The rational \<open>n / d\<close> (with \<open>0 < d\<close>) rounded to binary64.\<close>

definition round_to_binary64 :: "int \<Rightarrow> int \<Rightarrow> binary64" where
  "round_to_binary64 n d =
     (if n = 0 then (0, 0)
      else
        let a = \<bar>n\<bar>;
            k = int (bit_length (nat a)) - int (bit_length (nat d));
            e = (if (if 0 \<le> k then d * 2 ^ nat k \<le> a else d \<le> a * 2 ^ nat (- k))
                 then k else k - 1);
            s = e - 52;
            m = (if 0 \<le> s then rne_div a (d * 2 ^ nat s)
                 else rne_div (a * 2 ^ nat (- s)) d)
        in (sgn n * m, s))"

text \<open>\<open>a / b\<close> on two Python integers: true division, correctly rounded.\<close>

definition py_truediv :: "int \<Rightarrow> int \<Rightarrow> error + binary64" where
  "py_truediv a b =
     (if b = 0 then Inl ZeroDivisionError
      else Inr (round_to_binary64 (a * sgn b) \<bar>b\<bar>))"

text \<open>\<open>x * n\<close> for a float \<open>x\<close> and an integer \<open>n\<close>: \<open>n\<close> is converted to a float, and
  the product is rounded.\<close>

definition py_float_mul_int :: "binary64 \<Rightarrow> int \<Rightarrow> binary64" where
  "py_float_mul_int x n =
     (case x of (m1, e1) \<Rightarrow>
        case round_to_binary64 n 1 of (m2, e2) \<Rightarrow>
          if 0 \<le> e1 + e2 then round_to_binary64 (m1 * m2 * 2 ^ nat (e1 + e2)) 1
          else round_to_binary64 (m1 * m2) (2 ^ nat (- (e1 + e2))))"

text \<open>\<open>round(x)\<close> on a float: the nearest integer, ties to even.\<close>

definition py_round :: "binary64 \<Rightarrow> int" where
  "py_round x =
     (case x of (m, e) \<Rightarrow>
        if 0 \<le> e then m * 2 ^ nat e else rne_div m (2 ^ nat (- e)))"

section \<open>\<open>PptProcessor\<close>\<close>

text \<open>A run of the paragraph: its text, as the getter of \<open>run.text\<close> returns it, and its
  style, which this code never touches.\<close>

record 's run =
  run_text :: string
  run_style :: 's

text \<open>
  An entry of \<open>text_position_list\<close>. The entry \<open>'run'\<close> is a reference to a run of the
  paragraph: the index of that run in the paragraph's list of runs.
\<close>

record text_position =
  start :: int
  len :: int
  run :: nat

subsection \<open>\<open>_copy_non_placeholder\<close>\<close>

text \<open>
  The \<open>for\<close> loop inside the \<open>while\<close> loop: it stops at the first entry that contains
  \<open>current\<close>. When no entry does, it ends with \<open>new_texts\<close> and \<open>current\<close> as they were.
\<close>

fun copy_scan ::
  "string list \<Rightarrow> text_position list \<Rightarrow> nat \<Rightarrow> string \<Rightarrow> int \<Rightarrow> int \<Rightarrow>
   error + string list \<times> int" where
  "copy_scan new_texts [] idx all_text current endp = Inr (new_texts, current)"
| "copy_scan new_texts (pos # rest) idx all_text current endp =
     (let run_start = start pos;
          run_end = run_start + len pos
      in if run_end > current \<and> current \<ge> run_start then
           (let remaining = min (endp - current) (run_end - current)
            in if idx < length new_texts then
                 Inr (new_texts[idx := new_texts ! idx
                                  @ py_slice all_text current (current + remaining)],
                      current + remaining)
               else Inl IndexError)
         else copy_scan new_texts rest (Suc idx) all_text current endp)"

text \<open>The \<open>while\<close> loop. It has no bound of its own: \<open>None\<close> is the loop that never ends.\<close>

partial_function (option) copy_loop ::
  "string list \<Rightarrow> text_position list \<Rightarrow> string \<Rightarrow> int \<Rightarrow> int \<Rightarrow> (error + string list) option"
where
  "copy_loop new_texts text_position_list all_text current endp =
     (if current < endp then
        (case copy_scan new_texts text_position_list 0 all_text current endp of
           Inl e \<Rightarrow> Some (Inl e)
         | Inr (new_texts1, current1) \<Rightarrow>
             copy_loop new_texts1 text_position_list all_text current1 endp)
      else Some (Inr new_texts))"

definition copy_non_placeholder ::
  "string list \<Rightarrow> text_position list \<Rightarrow> string \<Rightarrow> int \<Rightarrow> int \<Rightarrow> (error + string list) option"
where
  "copy_non_placeholder new_texts text_position_list all_text start_pos endp =
     copy_loop new_texts text_position_list all_text start_pos endp"

subsection \<open>\<open>_allocate_rendered_value\<close>\<close>

text \<open>The first loop, on the variables \<open>(covered_runs, total_covered_len)\<close>.\<close>

fun cover_loop ::
  "text_position list \<Rightarrow> nat \<Rightarrow> int \<Rightarrow> int \<Rightarrow> (nat \<times> int) list \<times> int \<Rightarrow>
   (nat \<times> int) list \<times> int" where
  "cover_loop [] idx orig_start orig_end st = st"
| "cover_loop (pos # rest) idx orig_start orig_end (covered_runs, total_covered_len) =
     (let run_start = start pos;
          run_end = run_start + len pos
      in if run_end > orig_start \<and> run_start < orig_end then
           (let part_start = max run_start orig_start;
                part_end = min run_end orig_end;
                part_len = part_end - part_start
            in cover_loop rest (Suc idx) orig_start orig_end
                 (covered_runs @ [(idx, part_len)], total_covered_len + part_len))
         else cover_loop rest (Suc idx) orig_start orig_end (covered_runs, total_covered_len))"

text \<open>The second loop: \<open>i\<close> counts the entries of \<open>covered_runs\<close> already done, \<open>n\<close> is
  \<open>len(covered_runs)\<close>.\<close>

fun allocate_loop ::
  "string list \<Rightarrow> (nat \<times> int) list \<Rightarrow> nat \<Rightarrow> nat \<Rightarrow> int \<Rightarrow> string \<Rightarrow> int \<Rightarrow> int \<Rightarrow>
   error + string list" where
  "allocate_loop new_texts [] i n total_covered_len rend_value rend_len allocated =
     Inr new_texts"
| "allocate_loop new_texts ((idx, part_len) # rest) i n total_covered_len rend_value rend_len
       allocated =
     (case py_truediv part_len total_covered_len of
        Inl e \<Rightarrow> Inl e
      | Inr ratio \<Rightarrow>
          (let alloc_len = (if int i < int n - 1 then py_round (py_float_mul_int ratio rend_len)
                            else rend_len - allocated)
           in if idx < length new_texts then
                allocate_loop
                  (new_texts[idx := new_texts ! idx
                                @ py_slice rend_value allocated (allocated + alloc_len)])
                  rest (Suc i) n total_covered_len rend_value rend_len (allocated + alloc_len)
              else Inl IndexError))"

definition allocate_rendered_value ::
  "string list \<Rightarrow> text_position list \<Rightarrow> placeholder_info \<Rightarrow> int \<Rightarrow> int \<Rightarrow> error + string list"
where
  "allocate_rendered_value new_texts text_position_list ph orig_start orig_end =
     (case cover_loop text_position_list 0 orig_start orig_end ([], 0) of
        (covered_runs, total_covered_len) \<Rightarrow>
          if total_covered_len = 0 then Inr new_texts
          else allocate_loop new_texts covered_runs 0 (length covered_runs) total_covered_len
                 (rendered_value ph) (rendered_length ph) 0)"

subsection \<open>\<open>replace_paragraph_runs\<close>\<close>

text \<open>The loop that builds \<open>text_position_list\<close>; \<open>k\<close> is the index of the next run.\<close>

fun build_positions :: "'s run list \<Rightarrow> nat \<Rightarrow> int \<Rightarrow> text_position list" where
  "build_positions [] k start_index = []"
| "build_positions (r # rs) k start_index =
     \<lparr>start = start_index, len = int (length (run_text r)), run = k\<rparr>
       # build_positions rs (Suc k) (start_index + int (length (run_text r)))"

text \<open>\<open>''.join(item['run'].text for item in text_position_list)\<close>, read from the runs of
  the paragraph.\<close>

definition join_run_texts :: "'s run list \<Rightarrow> text_position list \<Rightarrow> string" where
  "join_run_texts runs text_position_list =
     concat (map (\<lambda>item. run_text (runs ! run item)) text_position_list)"

text \<open>The loop over \<open>placeholder_list\<close>, on the variables \<open>(new_texts, current_pos)\<close>.\<close>

fun placeholder_loop ::
  "text_position list \<Rightarrow> string \<Rightarrow> placeholder_info list \<Rightarrow> string list \<Rightarrow> int \<Rightarrow>
   (error + string list \<times> int) option" where
  "placeholder_loop text_position_list all_text [] new_texts current_pos =
     Some (Inr (new_texts, current_pos))"
| "placeholder_loop text_position_list all_text (ph # phs) new_texts current_pos =
     (let orig_start = original_start ph
      in case copy_non_placeholder new_texts text_position_list all_text current_pos orig_start of
           None \<Rightarrow> None
         | Some (Inl e) \<Rightarrow> Some (Inl e)
         | Some (Inr new_texts1) \<Rightarrow>
             (let current_pos1 = orig_start + original_length ph
              in case allocate_rendered_value new_texts1 text_position_list ph orig_start
                        current_pos1 of
                   Inl e \<Rightarrow> Some (Inl e)
                 | Inr new_texts2 \<Rightarrow>
                     placeholder_loop text_position_list all_text phs new_texts2 current_pos1))"

text \<open>
  The setter of \<open>run.text\<close>, which python-pptx provides: it stores the string with every
  control character in the ranges \<open>x00-x08\<close> and \<open>x0B-x1F\<close> replaced by the escape \<open>_xHHHH_\<close>,
  where \<open>HHHH\<close> is the code of the character in four upper-case hexadecimal digits
  (\<open>"_x%04X_" % ord(c)\<close>). Tab and line feed are stored as they are. The getter returns
  what is stored.
\<close>

definition is_ctrl_char :: "char \<Rightarrow> bool" where
  "is_ctrl_char c =
     ((of_char c :: nat) \<le> 8 \<or> (11 \<le> (of_char c :: nat) \<and> (of_char c :: nat) \<le> 31))"

definition hex_digit :: "nat \<Rightarrow> char" where
  "hex_digit n = ''0123456789ABCDEF'' ! n"

definition escape_char :: "char \<Rightarrow> string" where
  "escape_char c =
     (if is_ctrl_char c then
        ''_x00'' @ [hex_digit (of_char c div 16), hex_digit (of_char c mod 16)] @ ''_''
      else [c])"

definition escape_ctrl_chars :: "string \<Rightarrow> string" where
  "escape_ctrl_chars s = concat (map escape_char s)"

definition set_run_text :: "'s run \<Rightarrow> string \<Rightarrow> 's run" where
  "set_run_text r s = r\<lparr>run_text := escape_ctrl_chars s\<rparr>"

text \<open>The last loop: \<open>text_position_list[i]['run'].text = new_text\<close>, a call of the setter
  on the run that the entry refers to.\<close>

fun commit_loop ::
  "text_position list \<Rightarrow> string list \<Rightarrow> nat \<Rightarrow> 's run list \<Rightarrow> error + 's run list" where
  "commit_loop text_position_list [] i runs = Inr runs"
| "commit_loop text_position_list (new_text # rest) i runs =
     (if i < length text_position_list then
        commit_loop text_position_list rest (Suc i)
          (runs[run (text_position_list ! i) :=
                  set_run_text (runs ! run (text_position_list ! i)) new_text])
      else Inl IndexError)"

text \<open>The result is the paragraph's list of runs after the call; \<open>None\<close> is a call that
  never returns.\<close>

definition replace_paragraph_runs ::
  "('v \<Rightarrow> string) \<Rightarrow> (string \<rightharpoonup> 'v) \<Rightarrow> 's run list \<Rightarrow> (error + 's run list) option" where
  "replace_paragraph_runs str_of context runs =
     (let text_position_list = build_positions runs 0 0;
          all_text = join_run_texts runs text_position_list
      in case cal_render_position str_of context all_text of
           (rendered_text, placeholder_list) \<Rightarrow>
             if placeholder_list = [] then Some (Inr runs)
             else
               (let new_texts = replicate (length text_position_list) []
                in case placeholder_loop text_position_list all_text placeholder_list
                          new_texts 0 of
                     None \<Rightarrow> None
                   | Some (Inl e) \<Rightarrow> Some (Inl e)
                   | Some (Inr (new_texts1, current_pos)) \<Rightarrow>
                       (case copy_non_placeholder new_texts1 text_position_list all_text
                               current_pos (int (length all_text)) of
                          None \<Rightarrow> None
                        | Some (Inl e) \<Rightarrow> Some (Inl e)
                        | Some (Inr new_texts2) \<Rightarrow>
                            Some (commit_loop text_position_list new_texts2 0 runs))))"

section \<open>Auxiliary notions for the proofs\<close>

text \<open>The entries of a list of positions follow one another from offset \<open>s\<close>, each with a
  length that is not negative.\<close>

fun chain :: "int \<Rightarrow> text_position list \<Rightarrow> bool" where
  "chain s [] = True"
| "chain s (p # ps) = (start p = s \<and> 0 \<le> len p \<and> chain (s + len p) ps)"

definition total_len :: "text_position list \<Rightarrow> int" where
  "total_len tpl = sum_list (map len tpl)"

text \<open>Every entry that starts at or after \<open>p\<close> has received no text yet.\<close>

definition tail_clear :: "text_position list \<Rightarrow> string list \<Rightarrow> int \<Rightarrow> bool" where
  "tail_clear tpl nt p = (\<forall>k < length tpl. p \<le> start (tpl ! k) \<longrightarrow> nt ! k = [])"

text \<open>The list \<open>covered_runs\<close> of \<open>_allocate_rendered_value\<close>, without the accumulator.\<close>

fun covered :: "text_position list \<Rightarrow> nat \<Rightarrow> int \<Rightarrow> int \<Rightarrow> (nat \<times> int) list" where
  "covered [] idx orig_start orig_end = []"
| "covered (pos # rest) idx orig_start orig_end =
     (if start pos + len pos > orig_start \<and> start pos < orig_end then
        (idx, min (start pos + len pos) orig_end - max (start pos) orig_start)
          # covered rest (Suc idx) orig_start orig_end
      else covered rest (Suc idx) orig_start orig_end)"

text \<open>The value of \<open>round(part_len / total_covered_len * rend_len)\<close> when
  \<open>total_covered_len\<close> is not zero.\<close>

definition share :: "int \<Rightarrow> int \<Rightarrow> int \<Rightarrow> int" where
  "share part_len total_covered_len rend_len =
     py_round (py_float_mul_int
       (round_to_binary64 (part_len * sgn total_covered_len) \<bar>total_covered_len\<bar>) rend_len)"

text \<open>
  The portions of a value handed to the covered runs, from the character at offset \<open>a\<close>:
  every run but the last takes the next \<open>share\<close> characters, or what is left of the value
  when it is shorter, and the last run takes the rest.
\<close>

fun portions :: "(nat \<times> int) list \<Rightarrow> int \<Rightarrow> string \<Rightarrow> nat \<Rightarrow> (nat \<times> string) list" where
  "portions [] tot v a = []"
| "portions [(idx, part_len)] tot v a = [(idx, drop a v)]"
| "portions ((idx, part_len) # rest) tot v a =
     (idx, take (nat (share part_len tot (int (length v)))) (drop a v))
       # portions rest tot v (a + nat (share part_len tot (int (length v))))"

text \<open>Each portion appended to the text of its run.\<close>

fun append_portions :: "string list \<Rightarrow> (nat \<times> string) list \<Rightarrow> string list" where
  "append_portions nt [] = nt"
| "append_portions nt ((idx, s) # rest) = append_portions (nt[idx := nt ! idx @ s]) rest"

text \<open>The rendered text put together from the text between the occurrences and the
  values of the occurrences, from offset \<open>lo\<close> of the source text.\<close>

fun assemble :: "string \<Rightarrow> int \<Rightarrow> placeholder_info list \<Rightarrow> string" where
  "assemble all_text lo [] = drop (nat lo) all_text"
| "assemble all_text lo (ph # phs) =
     take (nat (original_start ph - lo)) (drop (nat lo) all_text)
       @ rendered_value ph
       @ assemble all_text (original_start ph + original_length ph) phs"

text \<open>The occurrences lie one after the other between \<open>lo\<close> and \<open>hi\<close>, each with a span that
  is not empty and a rendered length that is the length of its value.\<close>

fun spans_ok :: "int \<Rightarrow> int \<Rightarrow> placeholder_info list \<Rightarrow> bool" where
  "spans_ok lo hi [] = (lo \<le> hi)"
| "spans_ok lo hi (ph # phs) =
     (lo \<le> original_start ph \<and> 0 < original_length ph
      \<and> rendered_length ph = int (length (rendered_value ph))
      \<and> spans_ok (original_start ph + original_length ph) hi phs)"

text \<open>The same for the matches of \<open>finditer\<close>.\<close>

fun matches_ok :: "int \<Rightarrow> int \<Rightarrow> match list \<Rightarrow> bool" where
  "matches_ok lo hi [] = (lo \<le> hi)"
| "matches_ok lo hi (m # ms) =
     (lo \<le> m_start m \<and> m_start m < m_end m \<and> matches_ok (m_end m) hi ms)"

section \<open>The placeholder syntax in words\<close>

text \<open>
  The matcher as the specification words it: after two opening braces the content is
  everything, of any length and with any character, up to the first two closing braces.
\<close>

fun spec_content :: "string \<Rightarrow> string option" where
  "spec_content [] = None"
| "spec_content (c # cs) =
     (if take 2 (c # cs) = ''}}'' then Some []
      else map_option ((#) c) (spec_content cs))"

definition spec_match_here :: "string \<Rightarrow> string option" where
  "spec_match_here s = (if take 2 s = ''{{'' then spec_content (drop 2 s) else None)"

fun spec_finditer_from :: "int \<Rightarrow> string \<Rightarrow> match list" where
  "spec_finditer_from pos [] = []"
| "spec_finditer_from pos (c # cs) =
     (case spec_match_here (c # cs) of
        None \<Rightarrow> spec_finditer_from (pos + 1) cs
      | Some g \<Rightarrow>
          \<lparr>m_start = pos, m_end = pos + 4 + int (length g), m_group1 = g\<rparr>
            # spec_finditer_from (pos + 4 + int (length g)) (drop (3 + length g) cs))"

definition spec_finditer :: "string \<Rightarrow> match list" where
  "spec_finditer all_text = spec_finditer_from 0 all_text"

text \<open>
  What the pattern matches at the head of \<open>s\<close>, with content \<open>g\<close>: two opening braces, a
  content that is not empty and has no newline, and two closing braces that are the first
  ones to begin at least one character after the opening braces.
\<close>

definition is_placeholder :: "string \<Rightarrow> string \<Rightarrow> bool" where
  "is_placeholder s g =
     (g \<noteq> [] \<and> CHR 0x0A \<notin> set g \<and> take (length g + 4) s = ''{{'' @ g @ ''}}''
      \<and> (\<forall>k \<in> {1..<length g}. take 2 (drop k (g @ ''}}'')) \<noteq> ''}}''))"

section \<open>Evaluation rules for concrete inputs\<close>

lemmas float_eval = py_truediv_def py_float_mul_int_def py_round_def round_to_binary64_def
  bit_length.simps rne_div_def

lemmas render_eval = cal_render_position_def finditer_def match_here_def py_strip_def
  py_isspace_def context_get_str_def py_slice_def py_slice_from_def

lemmas reflow_eval = replace_paragraph_runs_def join_run_texts_def copy_non_placeholder_def
  copy_loop.simps allocate_rendered_value_def Let_def set_run_text_def escape_ctrl_chars_def
  escape_char_def is_ctrl_char_def hex_digit_def

section \<open>Slices and run positions\<close>

lemma py_slice_nonneg:
  "0 \<le> i \<Longrightarrow> 0 \<le> j \<Longrightarrow> py_slice s i j = take (nat (j - i)) (drop (nat i) s)"
  by (auto simp: py_slice_def Let_def min_def)

lemma py_slice_from_nonneg: "0 \<le> i \<Longrightarrow> py_slice_from s i = drop (nat i) s"
  by (simp add: py_slice_from_def py_slice_nonneg)

lemma length_build_positions [simp]: "length (build_positions rs k s) = length rs"
  by (induction rs arbitrary: k s) auto

lemma nth_build_positions_run:
  "i < length rs \<Longrightarrow> run (build_positions rs k s ! i) = k + i"
  by (induction rs arbitrary: k s i) (auto simp: nth_Cons split: nat.splits)

lemma nth_build_positions_len:
  "i < length rs \<Longrightarrow> len (build_positions rs k s ! i) = int (length (run_text (rs ! i)))"
  by (induction rs arbitrary: k s i) (auto simp: nth_Cons split: nat.splits)

lemma join_build_positions_aux:
  "join_run_texts (pre @ rs) (build_positions rs (length pre) s) = concat (map run_text rs)"
proof (induction rs arbitrary: pre s)
  case Nil
  then show ?case by (simp add: join_run_texts_def)
next
  case (Cons r rs)
  have "join_run_texts ((pre @ [r]) @ rs)
          (build_positions rs (length (pre @ [r])) (s + int (length (run_text r))))
        = concat (map run_text rs)"
    by (rule Cons.IH)
  then show ?case by (simp add: join_run_texts_def)
qed

lemma join_build_positions:
  "join_run_texts runs (build_positions runs 0 s) = concat (map run_text runs)"
  using join_build_positions_aux [of "[]" runs s] by simp

lemma cal_render_position_no_match:
  "finditer all_text = [] \<Longrightarrow> cal_render_position str_of context all_text = (all_text, [])"
  by (simp add: cal_render_position_def py_slice_from_nonneg)

lemma render_matches_values:
  "render_matches str_of context all_text ms (rt, le, phs) = (rt1, le1, phs1) \<Longrightarrow>
   ph \<in> set phs1 \<Longrightarrow>
   ph \<in> set phs \<or>
   (rendered_value ph = context_get_str str_of context (placeholder ph) \<and>
    rendered_length ph = int (length (rendered_value ph)))"
proof (induction ms arbitrary: rt le phs)
  case Nil
  then show ?case by simp
next
  case (Cons m ms)
  from Cons.prems Cons.IH show ?case
    by (fastforce simp: Let_def)
qed

section \<open>Positions that follow one another\<close>

lemma chain_total_nonneg: "chain s tpl \<Longrightarrow> 0 \<le> total_len tpl"
  by (induction tpl arbitrary: s) (auto simp: total_len_def)

lemma chain_nth:
  "chain s tpl \<Longrightarrow> k < length tpl \<Longrightarrow>
   s \<le> start (tpl ! k) \<and> 0 \<le> len (tpl ! k) \<and> start (tpl ! k) + len (tpl ! k) \<le> s + total_len tpl"
proof (induction tpl arbitrary: s k)
  case Nil
  then show ?case by simp
next
  case (Cons p ps)
  show ?case
  proof (cases k)
    case 0
    have "0 \<le> total_len ps"
      using Cons.prems(1) chain_total_nonneg [of "s + len p" ps] by simp
    with 0 Cons.prems show ?thesis by (simp add: total_len_def)
  next
    case (Suc j)
    with Cons.prems have "j < length ps" "chain (s + len p) ps" by auto
    from Cons.IH [OF this(2) this(1)] Suc Cons.prems show ?thesis
      by (simp add: total_len_def)
  qed
qed

lemma chain_mono:
  "chain s tpl \<Longrightarrow> j < k \<Longrightarrow> k < length tpl \<Longrightarrow>
   start (tpl ! j) + len (tpl ! j) \<le> start (tpl ! k)"
proof (induction tpl arbitrary: s j k)
  case Nil
  then show ?case by simp
next
  case (Cons p ps)
  from Cons.prems obtain k' where k: "k = Suc k'" by (cases k) auto
  with Cons.prems have c: "chain (s + len p) ps" and k': "k' < length ps" by auto
  show ?case
  proof (cases j)
    case 0
    from chain_nth [OF c k'] have "s + len p \<le> start (ps ! k')" by simp
    with 0 k Cons.prems show ?thesis by simp
  next
    case (Suc j')
    with Cons.prems k have "j' < k'" by simp
    from Cons.IH [OF c this k'] Suc k show ?thesis by simp
  qed
qed

lemma chain_build_positions: "chain s (build_positions rs k s)"
  by (induction rs arbitrary: k s) auto

lemma total_len_build_positions:
  "total_len (build_positions rs k s) = int (length (concat (map run_text rs)))"
  by (induction rs arbitrary: k s) (auto simp: total_len_def)

lemma concat_append_at:
  assumes "j < length nt" and "\<forall>k. j < k \<and> k < length nt \<longrightarrow> nt ! k = []"
  shows "concat (nt[j := nt ! j @ x]) = concat nt @ x"
proof -
  have e: "\<forall>ys \<in> set (drop (Suc j) nt). ys = []"
    using assms(2) by (auto simp: in_set_conv_nth)
  have d: "concat (drop (Suc j) nt) = []"
    using e by (simp)
  have "nt = take j nt @ [nt ! j] @ drop (Suc j) nt"
    using assms(1) by (simp add: Cons_nth_drop_Suc)
  then have n: "concat nt = concat (take j nt) @ nt ! j"
    using d by (metis append_Nil2 concat.simps(2) concat_append append_Cons append_Nil)
  have "nt[j := nt ! j @ x] = take j nt @ [nt ! j @ x] @ drop (Suc j) nt"
    using assms(1) by (simp add: upd_conv_take_nth_drop)
  then have "concat (nt[j := nt ! j @ x]) = concat (take j nt) @ nt ! j @ x"
    using d by simp
  with n show ?thesis by simp
qed

lemma copy_scan_hit:
  "chain s tpl \<Longrightarrow> s \<le> c \<Longrightarrow> c < s + total_len tpl \<Longrightarrow> idx + length tpl \<le> length nt \<Longrightarrow>
   \<exists>j < length tpl. start (tpl ! j) \<le> c \<and> c < start (tpl ! j) + len (tpl ! j) \<and>
     copy_scan nt tpl idx all_text c e =
       Inr (nt[idx + j := nt ! (idx + j)
                 @ py_slice all_text c (c + min (e - c) (start (tpl ! j) + len (tpl ! j) - c))],
            c + min (e - c) (start (tpl ! j) + len (tpl ! j) - c))"
proof (induction tpl arbitrary: s idx)
  case Nil
  then show ?case by (simp add: total_len_def)
next
  case (Cons p ps)
  from Cons.prems have sp: "start p = s" and lp: "0 \<le> len p" and ch: "chain (s + len p) ps"
    by auto
  show ?case
  proof (cases "c < s + len p")
    case True
    with sp Cons.prems have
      "copy_scan nt (p # ps) idx all_text c e =
         Inr (nt[idx := nt ! idx @ py_slice all_text c (c + min (e - c) (start p + len p - c))],
              c + min (e - c) (start p + len p - c))"
      by (simp add: Let_def)
    with True sp Cons.prems(2) show ?thesis
      by (intro exI [of _ 0]) (simp del: copy_scan.simps)
  next
    case False
    then have a: "s + len p \<le> c" by simp
    have b: "c < (s + len p) + total_len ps"
      using Cons.prems(3) by (simp add: total_len_def)
    have d: "Suc idx + length ps \<le> length nt" using Cons.prems(4) by simp
    from Cons.IH [OF ch a b d] obtain j where j: "j < length ps"
      "start (ps ! j) \<le> c" "c < start (ps ! j) + len (ps ! j)"
      "copy_scan nt ps (Suc idx) all_text c e =
         Inr (nt[Suc idx + j := nt ! (Suc idx + j)
                 @ py_slice all_text c (c + min (e - c) (start (ps ! j) + len (ps ! j) - c))],
              c + min (e - c) (start (ps ! j) + len (ps ! j) - c))"
      by blast
    have "copy_scan nt (p # ps) idx all_text c e = copy_scan nt ps (Suc idx) all_text c e"
      using False sp by (simp add: Let_def)
    with j show ?thesis
      by (intro exI [of _ "Suc j"]) (simp del: copy_scan.simps)
  qed
qed

section \<open>The gap copy\<close>

lemma py_slice_split:
  assumes "0 \<le> c" "c \<le> m" "m \<le> e"
  shows "py_slice t c e = py_slice t c m @ py_slice t m e"
proof -
  have n1: "nat (e - c) = nat (m - c) + nat (e - m)" using assms by simp
  have n2: "nat m = nat c + nat (m - c)" using assms by simp
  have "take (nat (m - c) + nat (e - m)) (drop (nat c) t)
        = take (nat (m - c)) (drop (nat c) t) @ take (nat (e - m)) (drop (nat c + nat (m - c)) t)"
    using take_add [of "nat (m - c)" "nat (e - m)" "drop (nat c) t"]
    by (simp add: add.commute)
  then show ?thesis
    using assms by (simp add: py_slice_nonneg n1 n2 del: drop_drop)
qed

lemma py_slice_empty [simp]: "py_slice t c c = []"
  by (simp add: py_slice_def Let_def)

lemma copy_loop_total:
  assumes "chain 0 tpl" "length nt = length tpl" "0 \<le> c" "c \<le> e" "e \<le> total_len tpl"
          "tail_clear tpl nt c"
  shows "\<exists>nt'. copy_loop nt tpl all_text c e = Some (Inr nt') \<and> length nt' = length nt
           \<and> concat nt' = concat nt @ py_slice all_text c e
           \<and> tail_clear tpl nt' e
           \<and> (\<forall>k < length tpl. len (tpl ! k) = 0 \<longrightarrow> nt' ! k = nt ! k)"
  using assms(2,3,4,6)
proof (induction "nat (e - c)" arbitrary: nt c rule: less_induct)
  case less
  show ?case
  proof (cases "c < e")
    case False
    with less.prems have ce: "c = e" by simp
    have "copy_loop nt tpl all_text e e = Some (Inr nt)"
      by (subst copy_loop.simps) simp
    with ce less.prems show ?thesis by simp
  next
    case True
    have lt: "c < 0 + total_len tpl" using True assms(5) by simp
    have ix: "0 + length tpl \<le> length nt" using less.prems(1) by simp
    from copy_scan_hit [OF assms(1) less.prems(2) lt ix, of all_text e]
    obtain j where j: "j < length tpl" "start (tpl ! j) \<le> c" "c < start (tpl ! j) + len (tpl ! j)"
      and sc: "copy_scan nt tpl 0 all_text c e =
         Inr (nt[j := nt ! j
                 @ py_slice all_text c (c + min (e - c) (start (tpl ! j) + len (tpl ! j) - c))],
              c + min (e - c) (start (tpl ! j) + len (tpl ! j) - c))"
      by auto
    define r where "r = min (e - c) (start (tpl ! j) + len (tpl ! j) - c)"
    define nt1 where "nt1 = nt[j := nt ! j @ py_slice all_text c (c + r)]"
    have r: "0 < r" "c + r \<le> e" "c + r \<le> start (tpl ! j) + len (tpl ! j)"
      using True j by (auto simp: r_def)
    have step: "copy_loop nt tpl all_text c e = copy_loop nt1 tpl all_text (c + r) e"
      using True sc by (subst copy_loop.simps) (simp add: r_def nt1_def)
    have after: "\<forall>k. j < k \<and> k < length nt \<longrightarrow> nt ! k = []"
    proof (intro allI impI)
      fix k assume k: "j < k \<and> k < length nt"
      then have "k < length tpl" using less.prems(1) by simp
      with chain_mono [OF assms(1), of j k] k have "start (tpl ! j) + len (tpl ! j) \<le> start (tpl ! k)"
        by simp
      with j have "c \<le> start (tpl ! k)" by simp
      with less.prems(4) \<open>k < length tpl\<close> show "nt ! k = []" by (simp add: tail_clear_def)
    qed
    have cc: "concat nt1 = concat nt @ py_slice all_text c (c + r)"
      unfolding nt1_def using j(1) less.prems(1) after by (intro concat_append_at) auto
    have len1: "length nt1 = length tpl" using less.prems(1) by (simp add: nt1_def)
    have tc1: "tail_clear tpl nt1 (c + r)"
      unfolding tail_clear_def
    proof (intro allI impI)
      fix k assume k: "k < length tpl" and s: "c + r \<le> start (tpl ! k)"
      from s r j have "k \<noteq> j" by auto
      then have "nt1 ! k = nt ! k" by (simp add: nt1_def)
      moreover have "c \<le> start (tpl ! k)" using s r by simp
      ultimately show "nt1 ! k = []" using less.prems(4) k by (simp add: tail_clear_def)
    qed
    have m: "nat (e - (c + r)) < nat (e - c)" using r True by simp
    have c0: "0 \<le> c + r" using less.prems(2) r by simp
    from less.hyps [OF m len1 c0 r(2) tc1]
    obtain nt' where nt': "copy_loop nt1 tpl all_text (c + r) e = Some (Inr nt')"
      "length nt' = length nt1" "concat nt' = concat nt1 @ py_slice all_text (c + r) e"
      "tail_clear tpl nt' e" "\<forall>k < length tpl. len (tpl ! k) = 0 \<longrightarrow> nt' ! k = nt1 ! k"
      by blast
    have sp: "py_slice all_text c e = py_slice all_text c (c + r) @ py_slice all_text (c + r) e"
      using less.prems(2) r by (intro py_slice_split) auto
    have z: "\<forall>k < length tpl. len (tpl ! k) = 0 \<longrightarrow> nt' ! k = nt ! k"
    proof (intro allI impI)
      fix k assume k: "k < length tpl" and l: "len (tpl ! k) = 0"
      from l j have "k \<noteq> j" by auto
      then have "nt1 ! k = nt ! k" by (simp add: nt1_def)
      with nt'(5) k l show "nt' ! k = nt ! k" by simp
    qed
    show ?thesis
      using step nt'(1,2,4) len1 less.prems(1) cc nt'(3) sp z by simp
  qed
qed

section \<open>Rounded shares and covered runs\<close>

lemma rne_div_nonneg: "0 \<le> n \<Longrightarrow> 0 < d \<Longrightarrow> 0 \<le> rne_div n d"
  by (auto simp: rne_div_def Let_def pos_imp_zdiv_nonneg_iff)

lemma round_to_binary64_nonneg: "0 \<le> n \<Longrightarrow> 0 < d \<Longrightarrow> 0 \<le> fst (round_to_binary64 n d)"
  by (auto simp: round_to_binary64_def Let_def intro!: mult_nonneg_nonneg rne_div_nonneg)

lemma round_to_binary64_zero [simp]: "round_to_binary64 0 d = (0, 0)"
  by (simp add: round_to_binary64_def)

lemma py_float_mul_int_nonneg:
  assumes "0 \<le> fst x" "0 \<le> n"
  shows "0 \<le> fst (py_float_mul_int x n)"
proof -
  obtain m1 e1 where x: "x = (m1, e1)" by (cases x)
  obtain m2 e2 where y: "round_to_binary64 n 1 = (m2, e2)" by (cases "round_to_binary64 n 1")
  have m2: "0 \<le> m2" using round_to_binary64_nonneg [of n 1] assms(2) y by simp
  have m1: "0 \<le> m1" using assms(1) x by simp
  show ?thesis
    using m1 m2 by (simp add: py_float_mul_int_def x y round_to_binary64_nonneg)
qed

lemma py_round_nonneg: "0 \<le> fst x \<Longrightarrow> 0 \<le> py_round x"
  by (cases x) (simp add: py_round_def rne_div_nonneg)

lemma share_nonneg: "0 \<le> p \<Longrightarrow> 0 < t \<Longrightarrow> 0 \<le> l \<Longrightarrow> 0 \<le> share p t l"
  unfolding share_def
  by (intro py_round_nonneg py_float_mul_int_nonneg round_to_binary64_nonneg) auto

lemma share_zero [simp]: "share 0 t l = 0"
  by (cases "round_to_binary64 l 1") (simp add: share_def py_float_mul_int_def py_round_def)

lemma py_truediv_share:
  "t \<noteq> 0 \<Longrightarrow> py_truediv p t = Inr ratio \<Longrightarrow> py_round (py_float_mul_int ratio l) = share p t l"
  by (auto simp: py_truediv_def share_def)

lemma cover_loop_covered:
  "cover_loop tpl idx os oe (acc, tot) =
     (acc @ covered tpl idx os oe, tot + sum_list (map snd (covered tpl idx os oe)))"
  by (induction tpl arbitrary: idx acc tot) (auto simp: Let_def)

lemma covered_mem:
  "(i, p) \<in> set (covered tpl idx os oe) \<Longrightarrow>
   idx \<le> i \<and> i < idx + length tpl
   \<and> os < start (tpl ! (i - idx)) + len (tpl ! (i - idx)) \<and> start (tpl ! (i - idx)) < oe
   \<and> p = min (start (tpl ! (i - idx)) + len (tpl ! (i - idx))) oe - max (start (tpl ! (i - idx))) os"
proof (induction tpl arbitrary: idx)
  case Nil
  then show ?case by simp
next
  case (Cons q qs)
  show ?case
  proof (cases "(i, p) \<in> set (covered qs (Suc idx) os oe)")
    case True
    from Cons.IH [OF True] show ?thesis
      by (auto simp: Suc_diff_le)
  next
    case False
    with Cons.prems show ?thesis by (auto split: if_splits)
  qed
qed

lemma covered_sorted: "sorted_wrt (<) (map fst (covered tpl idx os oe))"
proof (induction tpl arbitrary: idx)
  case Nil
  then show ?case by simp
next
  case (Cons q qs)
  have "\<forall>x \<in> set (covered qs (Suc idx) os oe). idx < fst x"
    using covered_mem [of _ _ qs "Suc idx" os oe] by fastforce
  with Cons.IH [of "Suc idx"] show ?case by auto
qed

lemma covered_part_nonneg:
  assumes "chain s tpl" "os < oe" "(i, p) \<in> set (covered tpl idx os oe)"
  shows "0 \<le> p"
proof -
  from covered_mem [OF assms(3)] have m: "i - idx < length tpl"
    "os < start (tpl ! (i - idx)) + len (tpl ! (i - idx))" "start (tpl ! (i - idx)) < oe"
    "p = min (start (tpl ! (i - idx)) + len (tpl ! (i - idx))) oe - max (start (tpl ! (i - idx))) os"
    by auto
  from chain_nth [OF assms(1) m(1)] have "0 \<le> len (tpl ! (i - idx))" by simp
  with m assms(2) show ?thesis by auto
qed

lemma covered_hit:
  "chain s tpl \<Longrightarrow> s \<le> c \<Longrightarrow> c < s + total_len tpl \<Longrightarrow> os \<le> c \<Longrightarrow> c < oe \<Longrightarrow>
   \<exists>x \<in> set (covered tpl idx os oe). 0 < snd x"
proof (induction tpl arbitrary: s idx)
  case Nil
  then show ?case by (simp add: total_len_def)
next
  case (Cons q qs)
  from Cons.prems have sq: "start q = s" and lq: "0 \<le> len q" and ch: "chain (s + len q) qs"
    by auto
  show ?case
  proof (cases "c < s + len q")
    case True
    with sq Cons.prems show ?thesis by auto
  next
    case False
    then have a: "s + len q \<le> c" by simp
    have b: "c < (s + len q) + total_len qs" using Cons.prems(3) by (simp add: total_len_def)
    from Cons.IH [OF ch a b Cons.prems(4,5), of "Suc idx"] show ?thesis by auto
  qed
qed

lemma covered_last_nonempty:
  "chain s tpl \<Longrightarrow> oe \<le> s + total_len tpl \<Longrightarrow> covered tpl idx os oe \<noteq> [] \<Longrightarrow>
   0 < len (tpl ! (fst (last (covered tpl idx os oe)) - idx))"
proof (induction tpl arbitrary: s idx)
  case Nil
  then show ?case by simp
next
  case (Cons q qs)
  from Cons.prems have sq: "start q = s" and lq: "0 \<le> len q" and ch: "chain (s + len q) qs"
    by auto
  have oe': "oe \<le> (s + len q) + total_len qs" using Cons.prems(2) by (simp add: total_len_def)
  show ?case
  proof (cases "covered qs (Suc idx) os oe = []")
    case False
    from Cons.IH [OF ch oe' False]
    have l: "0 < len (qs ! (fst (last (covered qs (Suc idx) os oe)) - Suc idx))" .
    have "Suc idx \<le> fst (last (covered qs (Suc idx) os oe))"
      using covered_mem [of "fst (last (covered qs (Suc idx) os oe))"
          "snd (last (covered qs (Suc idx) os oe))" qs "Suc idx" os oe] False
      by (simp add: last_in_set)
    then have "fst (last (covered qs (Suc idx) os oe)) - idx
               = Suc (fst (last (covered qs (Suc idx) os oe)) - Suc idx)" by simp
    with l False show ?thesis by simp
  next
    case True
    with Cons.prems(3) have cov: "os < s + len q" "s < oe" and
      e: "covered (q # qs) idx os oe = [(idx, min (s + len q) oe - max s os)]"
      using sq by (auto split: if_splits)
    have "0 < len q"
    proof (rule ccontr)
      assume "\<not> 0 < len q"
      with lq have z: "len q = 0" by simp
      have "\<exists>x \<in> set (covered qs (Suc idx) os oe). 0 < snd x"
      proof (rule covered_hit [OF ch, of s])
        show "s + len q \<le> s" using z by simp
        show "s < s + len q + total_len qs" using cov oe' z by simp
        show "os \<le> s" using cov z by simp
        show "s < oe" using cov by simp
      qed
      with True show False by simp
    qed
    with e show ?thesis by simp
  qed
qed

section \<open>The allocation loop\<close>

lemma py_slice_take:
  "py_slice v (int a) (int (a + k)) = take k (drop a v)"
  by (simp add: py_slice_nonneg)

lemma py_slice_rest:
  "py_slice v (int a) (int (length v)) = drop a v"
  by (simp add: py_slice_nonneg)

lemma allocate_loop_portions:
  assumes "0 < tot" "\<forall>x \<in> set cov. fst x < length nt \<and> 0 \<le> snd x" "i + length cov = n"
  shows "allocate_loop nt cov i n tot v (int (length v)) (int a)
         = Inr (append_portions nt (portions cov tot v a))"
  using assms(2,3)
proof (induction cov arbitrary: nt i a)
  case Nil
  then show ?case by simp
next
  case (Cons x rest)
  obtain idx part_len where x: "x = (idx, part_len)" by (cases x)
  from Cons.prems x have idx: "idx < length nt" and pl: "0 \<le> part_len" by auto
  from assms(1) obtain ratio where ratio: "py_truediv part_len tot = Inr ratio"
    by (auto simp: py_truediv_def)
  have sh: "py_round (py_float_mul_int ratio (int (length v))) = share part_len tot (int (length v))"
    using assms(1) ratio by (intro py_truediv_share) auto
  show ?case
  proof (cases rest)
    case Nil
    with Cons.prems(2) have "\<not> int i < int n - 1" by auto
    with ratio idx x Nil show ?thesis
      by (simp add: py_slice_rest)
  next
    case (Cons y rest')
    with Cons.prems(2) have lt: "int i < int n - 1" by auto
    define r where "r = share part_len tot (int (length v))"
    have r0: "0 \<le> r" unfolding r_def using pl assms(1) by (intro share_nonneg) auto
    define nt1 where "nt1 = nt[idx := nt ! idx @ take (nat r) (drop a v)]"
    have p: "\<forall>x \<in> set rest. fst x < length nt1 \<and> 0 \<le> snd x"
      using Cons.prems(1) by (simp add: nt1_def)
    have n: "Suc i + length rest = n" using Cons.prems(2) by simp
    have ia: "int a + r = int (a + nat r)" using r0 by simp
    have "allocate_loop nt (x # rest) i n tot v (int (length v)) (int a)
          = allocate_loop nt1 rest (Suc i) n tot v (int (length v)) (int (a + nat r))"
      using ratio idx x lt sh r0 by (simp add: Let_def py_slice_take r_def [symmetric] nt1_def ia del: of_nat_add)
    also have "\<dots> = Inr (append_portions nt1 (portions rest tot v (a + nat r)))"
      by (rule Cons.IH [OF p n])
    also have "append_portions nt1 (portions rest tot v (a + nat r))
               = append_portions nt (portions (x # rest) tot v a)"
      using x Cons by (simp add: nt1_def r_def)
    finally show ?thesis .
  qed
qed

lemma portions_fst [simp]: "map fst (portions cov tot v a) = map fst cov"
  by (induction cov tot v a rule: portions.induct) auto

lemma portions_concat:
  "cov \<noteq> [] \<Longrightarrow> concat (map snd (portions cov tot v a)) = drop a v"
proof (induction cov tot v a rule: portions.induct)
  case (1 tot v a)
  then show ?case by simp
next
  case (2 idx part_len tot v a)
  then show ?case by simp
next
  case (3 idx part_len y rest tot v a)
  have "take (nat (share part_len tot (int (length v)))) (drop a v)
          @ drop (a + nat (share part_len tot (int (length v)))) v = drop a v"
    using append_take_drop_id [of "nat (share part_len tot (int (length v)))" "drop a v"]
    by (simp add: add.commute)
  with 3 show ?case by simp
qed

lemma length_append_portions [simp]: "length (append_portions nt ps) = length nt"
  by (induction nt ps rule: append_portions.induct) auto

lemma append_portions_other:
  "\<forall>s. (k, s) \<in> set ps \<longrightarrow> s = [] \<Longrightarrow> append_portions nt ps ! k = nt ! k"
proof (induction nt ps rule: append_portions.induct)
  case (1 nt)
  then show ?case by simp
next
  case (2 nt idx s rest)
  then have "append_portions (nt[idx := nt ! idx @ s]) rest ! k = (nt[idx := nt ! idx @ s]) ! k"
    by simp
  also have "\<dots> = nt ! k"
  proof (cases "idx = k")
    case True
    with 2(2) have "s = []" by simp
    then show ?thesis by (cases "k < length nt") simp_all
  next
    case False
    then show ?thesis by simp
  qed
  finally show ?case by simp
qed

lemma append_portions_concat:
  assumes "sorted_wrt (<) (map fst ps)" "\<forall>x \<in> set ps. fst x < length nt"
          "\<forall>k < length nt. (\<forall>x \<in> set (take 1 ps). fst x < k) \<and> ps \<noteq> [] \<longrightarrow> nt ! k = []"
  shows "concat (append_portions nt ps) = concat nt @ concat (map snd ps)"
  using assms
proof (induction nt ps rule: append_portions.induct)
  case (1 nt)
  then show ?case by simp
next
  case (2 nt idx s rest)
  define nt1 where "nt1 = nt[idx := nt ! idx @ s]"
  have idx: "idx < length nt" using 2(3) by simp
  have c: "concat nt1 = concat nt @ s"
    unfolding nt1_def using idx 2(4) by (intro concat_append_at) auto
  have a1: "sorted_wrt (<) (map fst rest)" using 2(2) by simp
  have a2: "\<forall>x \<in> set rest. fst x < length nt1" using 2(3) by (simp add: nt1_def)
  have a3: "\<forall>k < length nt1. (\<forall>x \<in> set (take 1 rest). fst x < k) \<and> rest \<noteq> [] \<longrightarrow> nt1 ! k = []"
  proof (intro allI impI)
    fix k assume k: "k < length nt1" and h: "(\<forall>x \<in> set (take 1 rest). fst x < k) \<and> rest \<noteq> []"
    then obtain y rest' where r: "rest = y # rest'" by (cases rest) auto
    with h have yk: "fst y < k" by simp
    from 2(2) r have "idx < fst y" by simp
    with yk have ik: "idx < k" by simp
    then have "nt1 ! k = nt ! k" by (simp add: nt1_def)
    moreover have "nt ! k = []" using 2(4) k ik by (simp add: nt1_def)
    ultimately show "nt1 ! k = []" by simp
  qed
  from 2(1) [OF a1 [unfolded nt1_def] a2 [unfolded nt1_def] a3 [unfolded nt1_def]] c
  show ?case by (simp add: nt1_def)
qed

section \<open>The allocation of one value\<close>

lemma member_le_sum_list_int:
  "\<forall>x \<in> set xs. (0::int) \<le> x \<Longrightarrow> y \<in> set xs \<Longrightarrow> y \<le> sum_list xs"
  by (induction xs) (auto simp: sum_list_nonneg add_increasing add_increasing2)

lemma portions_mem_fst: "(k, s) \<in> set (portions cov tot v a) \<Longrightarrow> k \<in> fst ` set cov"
proof -
  assume "(k, s) \<in> set (portions cov tot v a)"
  then have "fst (k, s) \<in> fst ` set (portions cov tot v a)" by (rule imageI)
  then have "k \<in> set (map fst (portions cov tot v a))" by (simp only: set_map fst_conv)
  then show ?thesis by simp
qed

lemma portions_zero:
  "(k, s) \<in> set (portions cov tot v a) \<Longrightarrow> \<forall>q. (k, q) \<in> set cov \<longrightarrow> q = 0 \<Longrightarrow>
   cov \<noteq> [] \<Longrightarrow> fst (last cov) \<noteq> k \<Longrightarrow> s = []"
proof (induction cov tot v a rule: portions.induct)
  case (1 tot v a)
  then show ?case by simp
next
  case (2 idx part_len tot v a)
  then show ?case by simp
next
  case (3 idx part_len y rest tot v a)
  show ?case
  proof (cases "(k, s) \<in> set (portions (y # rest) tot v (a + nat (share part_len tot (int (length v)))))")
    case True
    from 3(1) [OF True] 3(3,5) show ?thesis by simp
  next
    case False
    with 3(2) have k: "k = idx" and s: "s = take (nat (share part_len tot (int (length v)))) (drop a v)"
      by auto
    from 3(3) k have "part_len = 0" by simp
    with s show ?thesis by simp
  qed
qed

lemma allocate_rendered_value_total:
  assumes ch: "chain 0 tpl" and ln: "length nt = length tpl"
      and os: "0 \<le> os" "os < oe" "oe \<le> total_len tpl"
      and tc: "tail_clear tpl nt os"
      and rl: "rendered_length ph = int (length (rendered_value ph))"
  shows "\<exists>nt'. allocate_rendered_value nt tpl ph os oe = Inr nt' \<and> length nt' = length nt
           \<and> concat nt' = concat nt @ rendered_value ph
           \<and> tail_clear tpl nt' oe
           \<and> (\<forall>k < length tpl. len (tpl ! k) = 0 \<longrightarrow> nt' ! k = nt ! k)"
proof -
  define cov where "cov = covered tpl 0 os oe"
  define tot where "tot = sum_list (map snd cov)"
  define v where "v = rendered_value ph"
  define ps where "ps = portions cov tot v 0"
  have cl: "cover_loop tpl 0 os oe ([], 0) = (cov, tot)"
    by (simp add: cover_loop_covered cov_def tot_def)
  have mem: "\<And>i p. (i, p) \<in> set cov \<Longrightarrow> i < length tpl
      \<and> os < start (tpl ! i) + len (tpl ! i) \<and> start (tpl ! i) < oe
      \<and> p = min (start (tpl ! i) + len (tpl ! i)) oe - max (start (tpl ! i)) os"
    using covered_mem [of _ _ tpl 0 os oe] by (simp add: cov_def)
  have nn: "\<forall>x \<in> set cov. 0 \<le> snd x"
    using covered_part_nonneg [OF ch os(2), of _ _ 0] by (auto simp: cov_def)
  have "\<exists>x \<in> set cov. 0 < snd x"
    unfolding cov_def using os by (intro covered_hit [OF ch, of os]) auto
  then obtain x where x: "x \<in> set cov" "0 < snd x" by blast
  have ne: "cov \<noteq> []" using x by auto
  have "snd x \<le> tot" unfolding tot_def
    using nn x(1) by (intro member_le_sum_list_int) auto
  with x have tot: "0 < tot" by simp
  have bnd: "\<forall>x \<in> set cov. fst x < length nt \<and> 0 \<le> snd x"
    using mem nn ln by fastforce
  have al: "allocate_loop nt cov 0 (length cov) tot v (int (length v)) (int 0)
            = Inr (append_portions nt ps)"
    unfolding ps_def using tot bnd by (intro allocate_loop_portions) auto
  have res: "allocate_rendered_value nt tpl ph os oe = Inr (append_portions nt ps)"
    using cl tot al rl by (simp add: allocate_rendered_value_def v_def)
  have fst_ps: "map fst ps = map fst cov" by (simp add: ps_def)
  have srt: "sorted_wrt (<) (map fst ps)"
    using covered_sorted [of tpl 0 os oe] by (simp add: fst_ps cov_def)
  have psb: "\<forall>x \<in> set ps. fst x < length nt"
  proof
    fix y assume "y \<in> set ps"
    then have "fst y \<in> set (map fst ps)" by simp
    then have "fst y \<in> fst ` set cov" by (simp add: fst_ps)
    with bnd show "fst y < length nt" by auto
  qed
  have clear: "\<forall>k < length nt. (\<forall>x \<in> set (take 1 ps). fst x < k) \<and> ps \<noteq> [] \<longrightarrow> nt ! k = []"
  proof (intro allI impI)
    fix k assume k: "k < length nt" and h: "(\<forall>x \<in> set (take 1 ps). fst x < k) \<and> ps \<noteq> []"
    then obtain y ps' where y: "ps = y # ps'" by (cases ps) auto
    with h have yk: "fst y < k" by simp
    have "fst y \<in> set (map fst ps)" using y by simp
    then have "fst y \<in> fst ` set cov" by (simp add: fst_ps)
    then obtain p where "(fst y, p) \<in> set cov" by auto
    from mem [OF this] have "os < start (tpl ! fst y) + len (tpl ! fst y)" by simp
    moreover have "start (tpl ! fst y) + len (tpl ! fst y) \<le> start (tpl ! k)"
      using chain_mono [OF ch yk] k ln by simp
    ultimately have "os \<le> start (tpl ! k)" by simp
    with tc k ln show "nt ! k = []" by (simp add: tail_clear_def)
  qed
  have cc: "concat (append_portions nt ps) = concat nt @ v"
    using append_portions_concat [OF srt psb clear] portions_concat [OF ne, of tot v 0]
    by (simp add: ps_def)
  have tc': "tail_clear tpl (append_portions nt ps) oe"
    unfolding tail_clear_def
  proof (intro allI impI)
    fix k assume k: "k < length tpl" and s: "oe \<le> start (tpl ! k)"
    have "\<forall>s. (k, s) \<in> set ps \<longrightarrow> s = []"
    proof (intro allI impI)
      fix s' assume "(k, s') \<in> set ps"
      then have "k \<in> fst ` set cov" unfolding ps_def by (rule portions_mem_fst)
      then obtain p where "(k, p) \<in> set cov" by auto
      from mem [OF this] s show "s' = []" by simp
    qed
    then have "append_portions nt ps ! k = nt ! k" by (rule append_portions_other)
    moreover have "nt ! k = []" using tc k s os by (simp add: tail_clear_def)
    ultimately show "append_portions nt ps ! k = []" by simp
  qed
  have zl: "\<forall>k < length tpl. len (tpl ! k) = 0 \<longrightarrow> append_portions nt ps ! k = nt ! k"
  proof (intro allI impI)
    fix k assume k: "k < length tpl" and z: "len (tpl ! k) = 0"
    have "\<forall>s. (k, s) \<in> set ps \<longrightarrow> s = []"
    proof (intro allI impI)
      fix s' assume a: "(k, s') \<in> set ps"
      have q: "\<forall>q. (k, q) \<in> set cov \<longrightarrow> q = 0"
      proof (intro allI impI)
        fix q assume "(k, q) \<in> set cov"
        from mem [OF this] z show "q = 0" by simp
      qed
      have "0 < len (tpl ! (fst (last cov) - 0))"
        unfolding cov_def using ne os
        by (intro covered_last_nonempty [OF ch]) (auto simp: cov_def)
      with z have l: "fst (last cov) \<noteq> k" by auto
      from portions_zero [OF a [unfolded ps_def] q ne l] show "s' = []" .
    qed
    then show "append_portions nt ps ! k = nt ! k" by (rule append_portions_other)
  qed
  show ?thesis
    using res cc tc' zl by (simp add: v_def)
qed

section \<open>The loop over the occurrences, the matches and the commit\<close>

lemma spans_ok_le: "spans_ok lo hi phs \<Longrightarrow> lo \<le> hi"
  by (induction phs arbitrary: lo) fastforce+

lemma placeholder_loop_total:
  assumes ch: "chain 0 tpl"
  shows "length nt = length tpl \<Longrightarrow> 0 \<le> cur \<Longrightarrow> spans_ok cur (total_len tpl) phs \<Longrightarrow>
         tail_clear tpl nt cur \<Longrightarrow>
         \<exists>nt' cur'. placeholder_loop tpl all_text phs nt cur = Some (Inr (nt', cur'))
           \<and> length nt' = length nt \<and> 0 \<le> cur' \<and> cur' \<le> total_len tpl
           \<and> tail_clear tpl nt' cur'
           \<and> concat nt' @ drop (nat cur') all_text = concat nt @ assemble all_text cur phs
           \<and> (\<forall>k < length tpl. len (tpl ! k) = 0 \<longrightarrow> nt' ! k = nt ! k)"
proof (induction phs arbitrary: nt cur)
  case Nil
  then show ?case by simp
next
  case (Cons ph phs)
  define os where "os = original_start ph"
  define oe where "oe = original_start ph + original_length ph"
  from Cons.prems(3) have sp: "cur \<le> os" "os < oe"
    "rendered_length ph = int (length (rendered_value ph))" "spans_ok oe (total_len tpl) phs"
    by (auto simp: os_def oe_def)
  from spans_ok_le [OF sp(4)] have oe: "oe \<le> total_len tpl" .
  have os_le: "os \<le> total_len tpl" using sp(2) oe by simp
  from copy_loop_total [OF ch Cons.prems(1,2) sp(1) os_le Cons.prems(4), of all_text]
  obtain nt1 where nt1: "copy_loop nt tpl all_text cur os = Some (Inr nt1)"
    "length nt1 = length nt" "concat nt1 = concat nt @ py_slice all_text cur os"
    "tail_clear tpl nt1 os" "\<forall>k < length tpl. len (tpl ! k) = 0 \<longrightarrow> nt1 ! k = nt ! k"
    by blast
  have l1: "length nt1 = length tpl" using nt1(2) Cons.prems(1) by simp
  have os0: "0 \<le> os" using Cons.prems(2) sp(1) by simp
  from allocate_rendered_value_total [OF ch l1 os0 sp(2) oe nt1(4) sp(3)]
  obtain nt2 where nt2: "allocate_rendered_value nt1 tpl ph os oe = Inr nt2"
    "length nt2 = length nt1" "concat nt2 = concat nt1 @ rendered_value ph"
    "tail_clear tpl nt2 oe" "\<forall>k < length tpl. len (tpl ! k) = 0 \<longrightarrow> nt2 ! k = nt1 ! k"
    by blast
  have l2: "length nt2 = length tpl" using nt2(2) l1 by simp
  have oe0: "0 \<le> oe" using os0 sp(2) by simp
  from Cons.IH [OF l2 oe0 sp(4) nt2(4)]
  obtain nt' cur' where r: "placeholder_loop tpl all_text phs nt2 oe = Some (Inr (nt', cur'))"
    "length nt' = length nt2" "0 \<le> cur'" "cur' \<le> total_len tpl" "tail_clear tpl nt' cur'"
    "concat nt' @ drop (nat cur') all_text = concat nt2 @ assemble all_text oe phs"
    "\<forall>k < length tpl. len (tpl ! k) = 0 \<longrightarrow> nt' ! k = nt2 ! k"
    by blast
  have step: "placeholder_loop tpl all_text (ph # phs) nt cur = Some (Inr (nt', cur'))"
    using nt1(1) nt2(1) r(1)
    by (simp add: copy_non_placeholder_def Let_def os_def oe_def)
  have sl: "py_slice all_text cur os = take (nat (os - cur)) (drop (nat cur) all_text)"
    using Cons.prems(2) os0 by (simp add: py_slice_nonneg)
  have cc: "concat nt' @ drop (nat cur') all_text = concat nt @ assemble all_text cur (ph # phs)"
    using r(6) nt2(3) nt1(3) sl by (simp add: os_def oe_def)
  have z: "\<forall>k < length tpl. len (tpl ! k) = 0 \<longrightarrow> nt' ! k = nt ! k"
    using r(7) nt2(5) nt1(5) by simp
  show ?case
    using step r(2,3,4,5) nt2(2) nt1(2) cc z by simp
qed

lemma matches_ok_mono: "matches_ok lo hi ms \<Longrightarrow> lo' \<le> lo \<Longrightarrow> matches_ok lo' hi ms"
  by (cases ms) auto

lemma lazy_group_length: "lazy_group s = Some g \<Longrightarrow> length g + 2 \<le> length s \<and> g \<noteq> []"
proof (induction s arbitrary: g)
  case Nil
  then show ?case by simp
next
  case (Cons c cs)
  show ?case
  proof (cases "take 2 cs = ''}}''")
    case True
    then have "2 \<le> length cs" by (cases cs; cases "tl cs") auto
    with Cons.prems True show ?thesis by (auto split: if_splits)
  next
    case False
    with Cons.prems obtain g' where g': "lazy_group cs = Some g'" "g = c # g'"
      by (auto split: if_splits)
    from Cons.IH [OF g'(1)] g'(2) show ?thesis by simp
  qed
qed

lemma match_here_length: "match_here s = Some g \<Longrightarrow> length g + 4 \<le> length s \<and> g \<noteq> []"
proof -
  assume a: "match_here s = Some g"
  then have t: "take 2 s = ''{{''" and l: "lazy_group (drop 2 s) = Some g"
    by (auto simp: match_here_def split: if_splits)
  from t have "2 \<le> length s" by (cases s; cases "tl s") auto
  with lazy_group_length [OF l] show ?thesis by auto
qed

lemma finditer_from_ok: "matches_ok pos (pos + int (length s)) (finditer_from pos s)"
proof (induction pos s rule: finditer_from.induct)
  case (1 pos)
  then show ?case by simp
next
  case (2 pos c cs)
  define hi where "hi = pos + int (length (c # cs))"
  show ?case
  proof (cases "match_here (c # cs)")
    case None
    have "pos + 1 + int (length cs) = hi" by (simp add: hi_def)
    with 2(1) [OF None] have "matches_ok (pos + 1) hi (finditer_from (pos + 1) cs)" by simp
    then have "matches_ok pos hi (finditer_from (pos + 1) cs)"
      by (rule matches_ok_mono) simp
    with None show ?thesis unfolding hi_def [symmetric] by simp
  next
    case (Some g)
    from match_here_length [OF Some] have g: "length g + 3 \<le> length cs" by simp
    have "int (length (drop (3 + length g) cs)) = int (length cs) - 3 - int (length g)"
      using g by simp
    then have e: "pos + 4 + int (length g) + int (length (drop (3 + length g) cs)) = hi"
      by (simp add: hi_def)
    from 2(2) [OF Some] have "matches_ok (pos + 4 + int (length g)) hi
        (finditer_from (pos + 4 + int (length g)) (drop (3 + length g) cs))"
      by (simp only: e)
    with Some show ?thesis unfolding hi_def [symmetric] by simp
  qed
qed

lemma render_matches_assemble:
  "matches_ok le hi ms \<Longrightarrow> 0 \<le> le \<Longrightarrow>
   \<exists>rt1 le1 new. render_matches str_of context all_text ms (rt, le, phs) = (rt1, le1, phs @ new)
     \<and> 0 \<le> le1 \<and> spans_ok le hi new \<and> length new = length ms
     \<and> rt1 @ drop (nat le1) all_text = rt @ assemble all_text le new"
proof (induction ms arbitrary: rt le phs)
  case Nil
  then show ?case by simp
next
  case (Cons m ms)
  define v where "v = context_get_str str_of context (py_strip (m_group1 m))"
  define rt0 where "rt0 = rt @ py_slice all_text le (m_start m)"
  define ph where "ph = \<lparr>original_start = m_start m, original_length = m_end m - m_start m,
      rendered_start = int (length rt0), rendered_length = int (length v),
      placeholder = py_strip (m_group1 m), rendered_value = v\<rparr>"
  from Cons.prems have m: "le \<le> m_start m" "m_start m < m_end m" "matches_ok (m_end m) hi ms"
    by auto
  have e0: "0 \<le> m_end m" using m Cons.prems(2) by simp
  from Cons.IH [OF m(3) e0, of "rt0 @ v" "phs @ [ph]"]
  obtain rt1 le1 new where r:
    "render_matches str_of context all_text ms (rt0 @ v, m_end m, phs @ [ph]) = (rt1, le1, (phs @ [ph]) @ new)"
    "0 \<le> le1" "spans_ok (m_end m) hi new" "length new = length ms"
    "rt1 @ drop (nat le1) all_text = (rt0 @ v) @ assemble all_text (m_end m) new"
    by blast
  have step: "render_matches str_of context all_text (m # ms) (rt, le, phs) = (rt1, le1, phs @ (ph # new))"
    using r(1) by (simp add: Let_def v_def rt0_def ph_def)
  have sp: "spans_ok le hi (ph # new)"
    using m r(3) by (simp add: ph_def)
  have sl: "py_slice all_text le (m_start m) = take (nat (m_start m - le)) (drop (nat le) all_text)"
    using Cons.prems(2) m(1) by (simp add: py_slice_nonneg)
  have as: "rt1 @ drop (nat le1) all_text = rt @ assemble all_text le (ph # new)"
    using r(5) sl by (simp add: rt0_def ph_def)
  show ?case
    using step r(2,4) sp as by (intro exI [of _ rt1] exI [of _ le1] exI [of _ "ph # new"]) simp
qed

lemma cal_render_position_assemble:
  "\<exists>phs. cal_render_position str_of context all_text = (assemble all_text 0 phs, phs)
     \<and> spans_ok 0 (int (length all_text)) phs \<and> length phs = length (finditer all_text)"
proof -
  have ok: "matches_ok 0 (0 + int (length all_text)) (finditer all_text)"
    unfolding finditer_def by (rule finditer_from_ok)
  from render_matches_assemble [OF ok, of str_of "context" all_text "[]" "[]"]
  obtain rt1 le1 new where r:
    "render_matches str_of context all_text (finditer all_text) ([], 0, []) = (rt1, le1, [] @ new)"
    "0 \<le> le1" "spans_ok 0 (0 + int (length all_text)) new" "length new = length (finditer all_text)"
    "rt1 @ drop (nat le1) all_text = [] @ assemble all_text 0 new"
    by blast
  show ?thesis
    using r by (intro exI [of _ new]) (simp add: cal_render_position_def py_slice_from_nonneg)
qed

lemma commit_loop_result:
  assumes "\<forall>j < length tpl. run (tpl ! j) = j" "length tpl = length rs"
  shows "i + length ts = length tpl \<Longrightarrow> length rs = length tpl \<Longrightarrow>
         commit_loop tpl ts i rs
         = Inr (take i rs @ map2 set_run_text (drop i rs) ts)"
proof (induction ts arbitrary: i rs)
  case Nil
  then show ?case by simp
next
  case (Cons t ts)
  from Cons.prems have i: "i < length tpl" "i < length rs" by auto
  define rs1 where "rs1 = rs[i := set_run_text (rs ! i) t]"
  have l: "length rs1 = length tpl" using Cons.prems(2) by (simp add: rs1_def)
  have n: "Suc i + length ts = length tpl" using Cons.prems(1) by simp
  have "commit_loop tpl (t # ts) i rs = commit_loop tpl ts (Suc i) rs1"
    using i assms(1) by (simp add: rs1_def)
  also have "\<dots> = Inr (take (Suc i) rs1 @ map2 set_run_text (drop (Suc i) rs1) ts)"
    by (rule Cons.IH [OF n l])
  also have "take (Suc i) rs1 = take i rs @ [set_run_text (rs ! i) t]"
    using i by (simp add: rs1_def take_Suc_conv_app_nth)
  also have "drop (Suc i) rs1 = drop (Suc i) rs" by (simp add: rs1_def)
  finally show ?case
    using i by (simp add: Cons_nth_drop_Suc [symmetric])
qed

section \<open>The whole call\<close>

lemma map2_run_text:
  "length nt = length rs \<Longrightarrow> map run_text (map2 (\<lambda>r t. r\<lparr>run_text := t\<rparr>) rs nt) = nt"
  by (induction rs nt rule: list_induct2') auto

lemma map2_run_style:
  "length nt = length rs \<Longrightarrow> map run_style (map2 (\<lambda>r t. r\<lparr>run_text := t\<rparr>) rs nt) = map run_style rs"
  by (induction rs nt rule: list_induct2') auto

lemma map2_run_same: "map2 (\<lambda>r t. r\<lparr>run_text := t\<rparr>) rs (map run_text rs) = rs"
  by (induction rs) auto

lemma map2_set_run_text:
  "map2 set_run_text rs nt = map2 (\<lambda>r t. r\<lparr>run_text := t\<rparr>) rs (map escape_ctrl_chars nt)"
  by (induction rs nt rule: list_induct2') (auto simp: set_run_text_def)

lemma escape_ctrl_chars_append:
  "escape_ctrl_chars (xs @ ys) = escape_ctrl_chars xs @ escape_ctrl_chars ys"
  by (simp add: escape_ctrl_chars_def)

lemma escape_ctrl_chars_concat:
  "escape_ctrl_chars (concat xss) = concat (map escape_ctrl_chars xss)"
  by (induction xss) (simp_all add: escape_ctrl_chars_append, simp add: escape_ctrl_chars_def)

lemma escape_ctrl_chars_plain:
  "\<forall>c \<in> set s. \<not> is_ctrl_char c \<Longrightarrow> escape_ctrl_chars s = s"
  by (induction s) (simp_all add: escape_ctrl_chars_def escape_char_def)

lemma tail_clear_replicate: "tail_clear tpl (replicate (length tpl) []) p"
  by (simp add: tail_clear_def)

lemma replace_paragraph_runs_total:
  "\<exists>wt. length wt = length runs
     \<and> replace_paragraph_runs str_of context runs
         = Some (Inr (map2 (\<lambda>r t. r\<lparr>run_text := t\<rparr>) runs wt))
     \<and> concat wt
         = (if snd (cal_render_position str_of context (concat (map run_text runs))) = []
            then fst (cal_render_position str_of context (concat (map run_text runs)))
            else escape_ctrl_chars
                   (fst (cal_render_position str_of context (concat (map run_text runs)))))
     \<and> (\<forall>k < length runs. run_text (runs ! k) = [] \<longrightarrow> wt ! k = [])"
proof -
  define tpl where "tpl = build_positions runs 0 0"
  define all_text where "all_text = concat (map run_text runs)"
  have jt: "join_run_texts runs tpl = all_text"
    by (simp add: tpl_def all_text_def join_build_positions)
  have ch: "chain 0 tpl" unfolding tpl_def by (rule chain_build_positions)
  have tl: "total_len tpl = int (length all_text)"
    by (simp add: tpl_def all_text_def total_len_build_positions)
  have lt: "length tpl = length runs" by (simp add: tpl_def)
  from cal_render_position_assemble [of str_of "context" all_text]
  obtain phs where phs: "cal_render_position str_of context all_text = (assemble all_text 0 phs, phs)"
    "spans_ok 0 (int (length all_text)) phs" by blast
  show ?thesis
  proof (cases "phs = []")
    case True
    have "replace_paragraph_runs str_of context runs = Some (Inr runs)"
      using phs(1) True jt
      by (simp add: replace_paragraph_runs_def tpl_def [symmetric] Let_def)
    moreover have "concat (map run_text runs) = fst (cal_render_position str_of context all_text)"
      using phs(1) True by (simp add: all_text_def)
    ultimately show ?thesis
      using phs(1) True
      by (intro exI [of _ "map run_text runs"]) (simp add: map2_run_same all_text_def)
  next
    case False
    define nt0 :: "string list" where "nt0 = replicate (length tpl) []"
    have l0: "length nt0 = length tpl" by (simp add: nt0_def)
    have tc0: "tail_clear tpl nt0 0" unfolding nt0_def by (rule tail_clear_replicate)
    have sp: "spans_ok 0 (total_len tpl) phs" using phs(2) tl by simp
    from placeholder_loop_total [OF ch l0 _ sp tc0, where all_text = all_text]
    obtain nt1 cur1 where r1: "placeholder_loop tpl all_text phs nt0 0 = Some (Inr (nt1, cur1))"
      "length nt1 = length nt0" "0 \<le> cur1" "cur1 \<le> total_len tpl" "tail_clear tpl nt1 cur1"
      "concat nt1 @ drop (nat cur1) all_text = concat nt0 @ assemble all_text 0 phs"
      "\<forall>k < length tpl. len (tpl ! k) = 0 \<longrightarrow> nt1 ! k = nt0 ! k"
      by auto
    have l1: "length nt1 = length tpl" using r1(2) l0 by simp
    from copy_loop_total [OF ch l1 r1(3,4) _ r1(5), where all_text = all_text]
    obtain nt2 where r2: "copy_loop nt1 tpl all_text cur1 (total_len tpl) = Some (Inr nt2)"
      "length nt2 = length nt1" "concat nt2 = concat nt1 @ py_slice all_text cur1 (total_len tpl)"
      "\<forall>k < length tpl. len (tpl ! k) = 0 \<longrightarrow> nt2 ! k = nt1 ! k"
      by auto
    have l2: "length nt2 = length runs" using r2(2) l1 lt by simp
    have sl: "py_slice all_text cur1 (total_len tpl) = drop (nat cur1) all_text"
      using r1(3,4) tl by (simp add: py_slice_nonneg)
    have c0: "concat nt0 = []" by (simp add: nt0_def)
    have cc: "concat nt2 = assemble all_text 0 phs"
      using r2(3) sl r1(6) c0 by simp
    have rn: "\<forall>j < length tpl. run (tpl ! j) = j"
      using nth_build_positions_run [of _ runs 0 0] by (simp add: tpl_def)
    define wt where "wt = map escape_ctrl_chars nt2"
    have cm: "commit_loop tpl nt2 0 runs = Inr (map2 (\<lambda>r t. r\<lparr>run_text := t\<rparr>) runs wt)"
    proof -
      have a: "0 + length nt2 = length tpl" using l2 lt by simp
      have b: "length runs = length tpl" using lt by simp
      from commit_loop_result [OF rn lt a b] show ?thesis
        by (simp add: map2_set_run_text wt_def)
    qed
    have res: "replace_paragraph_runs str_of context runs
               = Some (Inr (map2 (\<lambda>r t. r\<lparr>run_text := t\<rparr>) runs wt))"
      using phs(1) False jt r1(1) r2(1) cm tl
      by (simp add: replace_paragraph_runs_def tpl_def [symmetric] Let_def nt0_def
            copy_non_placeholder_def)
    have z: "\<forall>k < length runs. run_text (runs ! k) = [] \<longrightarrow> nt2 ! k = []"
    proof (intro allI impI)
      fix k assume k: "k < length runs" and e: "run_text (runs ! k) = []"
      have "len (tpl ! k) = 0"
        using nth_build_positions_len [OF k, of 0 0] e by (simp add: tpl_def)
      with r2(4) r1(7) k lt have "nt2 ! k = nt0 ! k" by simp
      then show "nt2 ! k = []" using k lt by (simp add: nt0_def)
    qed
    have lw: "length wt = length runs" using l2 by (simp add: wt_def)
    have cw: "concat wt = escape_ctrl_chars (assemble all_text 0 phs)"
      using cc escape_ctrl_chars_concat [of nt2] by (simp add: wt_def)
    have zw: "\<forall>k < length runs. run_text (runs ! k) = [] \<longrightarrow> wt ! k = []"
      using z l2 by (simp add: wt_def escape_ctrl_chars_def)
    show ?thesis
      using lw res cw phs(1) False zw by (intro exI [of _ wt]) (simp add: all_text_def)
  qed
qed

section \<open>The portions of one value and the runs without text\<close>

lemma allocate_rendered_value_portions:
  assumes ch: "chain 0 tpl" and ln: "length nt = length tpl"
      and os: "0 \<le> os" "os < oe" "oe \<le> total_len tpl"
      and rl: "rendered_length ph = int (length (rendered_value ph))"
      and cl: "cover_loop tpl 0 os oe ([], 0) = (cov, tot)"
  shows "allocate_rendered_value nt tpl ph os oe
         = Inr (append_portions nt (portions cov tot (rendered_value ph) 0))"
proof -
  have cov: "cov = covered tpl 0 os oe" and tot_eq: "tot = sum_list (map snd cov)"
    using cl by (auto simp: cover_loop_covered)
  have nn: "\<forall>x \<in> set cov. 0 \<le> snd x"
    using covered_part_nonneg [OF ch os(2), of _ _ 0] by (auto simp: cov)
  have "\<exists>x \<in> set cov. 0 < snd x"
    unfolding cov using os by (intro covered_hit [OF ch, of os]) auto
  then obtain x where x: "x \<in> set cov" "0 < snd x" by blast
  have "snd x \<le> tot" unfolding tot_eq
    using nn x(1) by (intro member_le_sum_list_int) auto
  with x have tot: "0 < tot" by simp
  have bnd: "\<forall>x \<in> set cov. fst x < length nt \<and> 0 \<le> snd x"
    using covered_mem [of _ _ tpl 0 os oe] nn ln by (fastforce simp: cov)
  have al: "allocate_loop nt cov 0 (length cov) tot (rendered_value ph)
              (int (length (rendered_value ph))) (int 0)
            = Inr (append_portions nt (portions cov tot (rendered_value ph) 0))"
    using tot bnd by (intro allocate_loop_portions) auto
  show ?thesis
    using cl tot al rl by (simp add: allocate_rendered_value_def)
qed

lemma copy_scan_skips_empty:
  "copy_scan nt tpl idx all_text c e = Inr (nt', c') \<Longrightarrow> idx \<le> k \<Longrightarrow> k < idx + length tpl \<Longrightarrow>
   len (tpl ! (k - idx)) = 0 \<Longrightarrow> nt' ! k = nt ! k"
proof (induction tpl arbitrary: idx)
  case Nil
  then show ?case by simp
next
  case (Cons p ps)
  show ?case
  proof (cases "start p + len p > c \<and> c \<ge> start p")
    case True
    then have "0 < len p" by simp
    with Cons.prems(4) have "k \<noteq> idx" by (cases "k = idx") auto
    with True Cons.prems(1) show ?thesis
      by (auto simp: Let_def split: if_splits)
  next
    case False
    then have s: "copy_scan nt ps (Suc idx) all_text c e = Inr (nt', c')"
      using Cons.prems(1) by (auto simp: Let_def)
    show ?thesis
    proof (cases "k = idx")
      case True
      have "\<And>m. copy_scan nt ps m all_text c e = Inr (nt', c') \<Longrightarrow> m > k \<Longrightarrow> nt' ! k = nt ! k"
      proof -
        fix m show "copy_scan nt ps m all_text c e = Inr (nt', c') \<Longrightarrow> m > k \<Longrightarrow> nt' ! k = nt ! k"
          by (induction ps arbitrary: m) (auto simp: Let_def split: if_splits)
      qed
      from this [OF s] True show ?thesis by simp
    next
      case False
      with Cons.prems have a: "Suc idx \<le> k" "k < Suc idx + length ps" by auto
      have "(p # ps) ! (k - idx) = ps ! (k - Suc idx)"
      proof -
        from a obtain j where j: "k - idx = Suc j" "k - Suc idx = j"
          by (cases "k - idx") auto
        then show ?thesis by simp
      qed
      with Cons.prems(4) have "len (ps ! (k - Suc idx)) = 0" by simp
      from Cons.IH [OF s a this] show ?thesis .
    qed
  qed
qed

section \<open>What the pattern matches\<close>

lemma take2_of_longer: "2 \<le> n \<Longrightarrow> take n s = t \<Longrightarrow> take 2 s = take 2 t"
  by (auto simp: min_def)

lemma lazy_group_sound:
  "lazy_group s = Some g \<Longrightarrow>
   g \<noteq> [] \<and> CHR 0x0A \<notin> set g \<and> take (length g + 2) s = g @ ''}}''
   \<and> (\<forall>k \<in> {1..<length g}. take 2 (drop k (g @ ''}}'')) \<noteq> ''}}'')"
proof (induction s arbitrary: g)
  case Nil
  then show ?case by simp
next
  case (Cons c cs)
  from Cons.prems have c: "c \<noteq> CHR 0x0A" by (auto split: if_splits)
  show ?case
  proof (cases "take 2 cs = ''}}''")
    case True
    with Cons.prems c have g: "g = [c]" by simp
    have "take (Suc (Suc 0)) cs = ''}}''" using True by (simp add: numeral_2_eq_2)
    with g c show ?thesis by simp
  next
    case False
    with Cons.prems c obtain g' where g': "lazy_group cs = Some g'" "g = c # g'"
      by auto
    from Cons.IH [OF g'(1)] have ih: "g' \<noteq> []" "CHR 0x0A \<notin> set g'"
      "take (length g' + 2) cs = g' @ ''}}''"
      "\<forall>k \<in> {1..<length g'}. take 2 (drop k (g' @ ''}}'')) \<noteq> ''}}''" by auto
    have t2: "take 2 (g' @ ''}}'') = take 2 cs"
      using take2_of_longer [OF _ ih(3)] by simp
    have "\<forall>k \<in> {1..<length g}. take 2 (drop k (g @ ''}}'')) \<noteq> ''}}''"
    proof
      fix k assume k: "k \<in> {1..<length g}"
      then obtain j where j: "k = Suc j" by (cases k) auto
      show "take 2 (drop k (g @ ''}}'')) \<noteq> ''}}''"
      proof (cases j)
        case 0
        with j g'(2) t2 False show ?thesis by simp
      next
        case (Suc i)
        with j k g'(2) have "j \<in> {1..<length g'}" by auto
        with ih(4) j g'(2) show ?thesis by simp
      qed
    qed
    with ih c g'(2) show ?thesis by simp
  qed
qed

lemma lazy_group_complete:
  "g \<noteq> [] \<Longrightarrow> CHR 0x0A \<notin> set g \<Longrightarrow> take (length g + 2) s = g @ ''}}'' \<Longrightarrow>
   \<forall>k \<in> {1..<length g}. take 2 (drop k (g @ ''}}'')) \<noteq> ''}}'' \<Longrightarrow>
   lazy_group s = Some g"
proof (induction g arbitrary: s)
  case Nil
  then show ?case by simp
next
  case (Cons c g')
  from Cons.prems(3) obtain cs where s: "s = c # cs" and t: "take (length g' + 2) cs = g' @ ''}}''"
    by (cases s) auto
  from Cons.prems(2) have c: "c \<noteq> CHR 0x0A" and nl: "CHR 0x0A \<notin> set g'" by auto
  have t2: "take 2 cs = take 2 (g' @ ''}}'')"
    using take2_of_longer [OF _ t] by simp
  show ?case
  proof (cases "g' = []")
    case True
    with t2 s c show ?thesis by simp
  next
    case False
    then have "1 \<in> {1..<length (c # g')}" by (cases g') auto
    with Cons.prems(4) have "take 2 (drop 1 ((c # g') @ ''}}'')) \<noteq> ''}}''" by blast
    with t2 have ne: "take 2 cs \<noteq> ''}}''" by simp
    have "\<forall>k \<in> {1..<length g'}. take 2 (drop k (g' @ ''}}'')) \<noteq> ''}}''"
    proof
      fix k assume "k \<in> {1..<length g'}"
      then have "Suc k \<in> {1..<length (c # g')}" by auto
      with Cons.prems(4) have "take 2 (drop (Suc k) ((c # g') @ ''}}'')) \<noteq> ''}}''" by blast
      then show "take 2 (drop k (g' @ ''}}'')) \<noteq> ''}}''" by simp
    qed
    from Cons.IH [OF False nl t this] have "lazy_group cs = Some g'" .
    with ne c s show ?thesis by simp
  qed
qed

lemma take_opening:
  "take (n + 4) s = ''{{'' @ t \<longleftrightarrow> take 2 s = ''{{'' \<and> take (n + 2) (drop 2 s) = t"
proof -
  have e: "take (n + 4) s = take 2 s @ take (n + 2) (drop 2 s)"
  proof -
    have a: "2 + (n + 2) = n + 4" by simp
    have "take (2 + (n + 2)) s = take 2 s @ take (n + 2) (drop 2 s)" by (rule take_add)
    then show ?thesis by (simp only: a)
  qed
  show ?thesis
  proof
    assume a: "take (n + 4) s = ''{{'' @ t"
    then have "2 \<le> length (take (n + 4) s)" by simp
    then have "length (take 2 s) = length ''{{''" by simp
    with a e show "take 2 s = ''{{'' \<and> take (n + 2) (drop 2 s) = t"
      by (metis append_eq_append_conv)
  next
    assume "take 2 s = ''{{'' \<and> take (n + 2) (drop 2 s) = t"
    with e show "take (n + 4) s = ''{{'' @ t" by simp
  qed
qed

lemma match_here_is_placeholder: "match_here s = Some g \<longleftrightarrow> is_placeholder s g"
proof
  assume "match_here s = Some g"
  then have t: "take 2 s = ''{{''" and l: "lazy_group (drop 2 s) = Some g"
    by (auto simp: match_here_def split: if_splits)
  from lazy_group_sound [OF l] t show "is_placeholder s g"
    unfolding is_placeholder_def using take_opening [of "length g" s "g @ ''}}''"] by simp
next
  assume a: "is_placeholder s g"
  then have t: "take 2 s = ''{{''" "take (length g + 2) (drop 2 s) = g @ ''}}''"
    unfolding is_placeholder_def using take_opening [of "length g" s "g @ ''}}''"] by auto
  from a have "lazy_group (drop 2 s) = Some g"
    unfolding is_placeholder_def by (intro lazy_group_complete t(2)) auto
  with t(1) show "match_here s = Some g" by (simp add: match_here_def)
qed

lemma finditer_from_sound:
  "m \<in> set (finditer_from pos s) \<Longrightarrow>
   \<exists>p < length s. m_start m = pos + int p
     \<and> m_end m = pos + int p + 4 + int (length (m_group1 m))
     \<and> match_here (drop p s) = Some (m_group1 m)"
proof (induction pos s rule: finditer_from.induct)
  case (1 pos)
  then show ?case by simp
next
  case (2 pos c cs)
  show ?case
  proof (cases "match_here (c # cs)")
    case None
    with 2(3) have "m \<in> set (finditer_from (pos + 1) cs)" by simp
    from 2(1) [OF None this] obtain p where p: "p < length cs" "m_start m = pos + 1 + int p"
      "m_end m = pos + 1 + int p + 4 + int (length (m_group1 m))"
      "match_here (drop p cs) = Some (m_group1 m)" by blast
    then show ?thesis by (intro exI [of _ "Suc p"]) simp
  next
    case (Some g)
    show ?thesis
    proof (cases "m = \<lparr>m_start = pos, m_end = pos + 4 + int (length g), m_group1 = g\<rparr>")
      case True
      with Some show ?thesis by (intro exI [of _ 0]) simp
    next
      case False
      with 2(3) Some
      have "m \<in> set (finditer_from (pos + 4 + int (length g)) (drop (3 + length g) cs))" by simp
      from 2(2) [OF Some this] obtain p where p: "p < length (drop (3 + length g) cs)"
        "m_start m = pos + 4 + int (length g) + int p"
        "m_end m = pos + 4 + int (length g) + int p + 4 + int (length (m_group1 m))"
        "match_here (drop p (drop (3 + length g) cs)) = Some (m_group1 m)" by blast
      have d: "drop (4 + length g + p) (c # cs) = drop p (drop (3 + length g) cs)"
      proof -
        have a: "4 + length g + p = Suc (p + (3 + length g))" by simp
        show ?thesis by (simp only: a drop_Suc_Cons drop_drop)
      qed
      from p(1) have l: "4 + length g + p < length (c # cs)" by simp
      show ?thesis
        using l p(2,3,4) d by (intro exI [of _ "4 + length g + p"]) (simp del: drop_drop)
    qed
  qed
qed

lemma finditer_from_complete:
  "p < length s \<Longrightarrow> match_here (drop p s) = Some g \<Longrightarrow>
   \<exists>m \<in> set (finditer_from pos s). m_start m \<le> pos + int p \<and> pos + int p < m_end m"
proof (induction pos s arbitrary: p rule: finditer_from.induct)
  case (1 pos)
  then show ?case by simp
next
  case (2 pos c cs)
  show ?case
  proof (cases "match_here (c # cs)")
    case None
    with 2(4) obtain q where q: "p = Suc q" by (cases p) auto
    with 2(3,4) have "q < length cs" "match_here (drop q cs) = Some g" by auto
    from 2(1) [OF None this] obtain m where m: "m \<in> set (finditer_from (pos + 1) cs)"
      "m_start m \<le> pos + 1 + int q" "pos + 1 + int q < m_end m" by blast
    have "m \<in> set (finditer_from pos (c # cs))" using m(1) None by simp
    moreover have "m_start m \<le> pos + int p" "pos + int p < m_end m" using m(2,3) q by simp_all
    ultimately show ?thesis by blast
  next
    case (Some g0)
    show ?thesis
    proof (cases "p < 4 + length g0")
      case True
      with Some show ?thesis by simp
    next
      case False
      then obtain q where q: "p = 4 + length g0 + q" by (metis le_add_diff_inverse not_less)
      have d: "drop p (c # cs) = drop q (drop (3 + length g0) cs)"
      proof -
        have a: "p = Suc (q + (3 + length g0))" using q by simp
        show ?thesis by (simp only: a drop_Suc_Cons drop_drop)
      qed
      have l: "q < length (drop (3 + length g0) cs)" using 2(3) q by simp
      have mh: "match_here (drop q (drop (3 + length g0) cs)) = Some g" using 2(4) d by simp
      from 2(2) [OF Some l mh] obtain m where m:
        "m \<in> set (finditer_from (pos + 4 + int (length g0)) (drop (3 + length g0) cs))"
        "m_start m \<le> pos + 4 + int (length g0) + int q" "pos + 4 + int (length g0) + int q < m_end m"
        by blast
      have "m \<in> set (finditer_from pos (c # cs))" using m(1) Some by simp
      moreover have "m_start m \<le> pos + int p" "pos + int p < m_end m" using m(2,3) q by simp_all
      ultimately show ?thesis by blast
    qed
  qed
qed

lemma render_matches_keys:
  "map placeholder (snd (snd (render_matches str_of context all_text ms (rt, le, phs))))
   = map placeholder phs @ map (\<lambda>m. py_strip (m_group1 m)) ms"
  by (induction ms arbitrary: rt le phs) (simp_all add: Let_def)

section \<open>Paragraphs without a placeholder\<close>

text \<open>
  Claim C5. When the concatenated text of the paragraph has no match of the pattern,
  \<open>replace_paragraph_runs\<close> returns with every run as it was: same text, same style.
\<close>

theorem no_placeholder_identity:
  "finditer (concat (map run_text runs)) = [] \<Longrightarrow>
   replace_paragraph_runs str_of context runs = Some (Inr runs)"
  by (simp add: replace_paragraph_runs_def join_build_positions cal_render_position_no_match)

theorem no_placeholder_identity_witness:
  "finditer (concat (map run_text [\<lparr>run_text = ''Hello {{na'', run_style = (1::nat)\<rparr>,
                                    \<lparr>run_text = ''me} there'', run_style = 2\<rparr>])) = []
   \<and> replace_paragraph_runs (\<lambda>v::string. v) Map.empty
         [\<lparr>run_text = ''Hello {{na'', run_style = (1::nat)\<rparr>,
          \<lparr>run_text = ''me} there'', run_style = 2\<rparr>]
       = Some (Inr [\<lparr>run_text = ''Hello {{na'', run_style = 1\<rparr>,
                    \<lparr>run_text = ''me} there'', run_style = 2\<rparr>])"
proof -
  have h: "finditer (concat (map run_text [\<lparr>run_text = ''Hello {{na'', run_style = (1::nat)\<rparr>,
                                    \<lparr>run_text = ''me} there'', run_style = 2\<rparr>])) = []"
    by (simp add: finditer_def match_here_def)
  show ?thesis
    using h no_placeholder_identity [OF h, of "\<lambda>v::string. v" Map.empty] by simp
qed

section \<open>The example of the specification\<close>

text \<open>
  Claim C8. For the runs \<open>Sales: {{sa\<close> and \<open>les}} unit\<close> and a context whose value for
  \<open>sales\<close> prints as \<open>980.0\<close>, the call returns the runs \<open>Sales: 98\<close> and \<open>0.0 unit\<close>:
  run 0 ends with the prefix \<open>98\<close> of the value (\<open>round(4 / 9 * 5) = 2\<close> characters), run 1
  begins with the rest \<open>0.0\<close> followed by \<open> unit\<close>, and the two texts concatenate to the
  rendered text \<open>Sales: 980.0 unit\<close>.
\<close>

theorem sales_example:
  assumes "context ''sales'' = Some v" and "str_of v = ''980.0''"
  shows "replace_paragraph_runs str_of context
           [\<lparr>run_text = ''Sales: {{sa'', run_style = s0\<rparr>,
            \<lparr>run_text = ''les}} unit'', run_style = s1\<rparr>]
         = Some (Inr [\<lparr>run_text = ''Sales: '' @ ''98'', run_style = s0\<rparr>,
                      \<lparr>run_text = ''0.0'' @ '' unit'', run_style = s1\<rparr>])
         \<and> ''98'' @ ''0.0'' = str_of v
         \<and> fst (cal_render_position str_of context (''Sales: {{sa'' @ ''les}} unit''))
             = (''Sales: '' @ ''98'') @ (''0.0'' @ '' unit'')
         \<and> (''Sales: '' @ ''98'') @ (''0.0'' @ '' unit'') = ''Sales: 980.0 unit''"
  using assms by (simp add: reflow_eval render_eval float_eval)

theorem sales_example_witness:
  "[''sales'' \<mapsto> ''980.0''] ''sales'' = Some ''980.0'' \<and> (\<lambda>v::string. v) ''980.0'' = ''980.0''
   \<and> replace_paragraph_runs (\<lambda>v::string. v) [''sales'' \<mapsto> ''980.0'']
           [\<lparr>run_text = ''Sales: {{sa'', run_style = True\<rparr>,
            \<lparr>run_text = ''les}} unit'', run_style = False\<rparr>]
         = Some (Inr [\<lparr>run_text = ''Sales: 98'', run_style = True\<rparr>,
                      \<lparr>run_text = ''0.0 unit'', run_style = False\<rparr>])"
  using sales_example [of "[''sales'' \<mapsto> ''980.0'']" "''980.0''" "\<lambda>v::string. v" True False]
  by simp

section \<open>Missing keys\<close>

text \<open>
  Claim C7. Every occurrence that \<open>cal_render_position\<close> returns for a key that the context
  does not have carries the empty string as its value, with rendered length 0. The function
  has no failing branch: it returns a rendered text and a list for every input. The rendered
  text is the source text with the span of every occurrence replaced by its value, so the
  span of such an occurrence is replaced by nothing.
\<close>

theorem missing_key_empty_value:
  assumes "ph \<in> set (snd (cal_render_position str_of context all_text))"
      and "context (placeholder ph) = None"
  shows "rendered_value ph = [] \<and> rendered_length ph = 0
         \<and> fst (cal_render_position str_of context all_text)
             = assemble all_text 0 (snd (cal_render_position str_of context all_text))"
proof -
  have as: "fst (cal_render_position str_of context all_text)
            = assemble all_text 0 (snd (cal_render_position str_of context all_text))"
    using cal_render_position_assemble [of str_of "context" all_text] by auto
  obtain rt le phs where r:
    "render_matches str_of context all_text (finditer all_text) ([], 0, []) = (rt, le, phs)"
    by (cases "render_matches str_of context all_text (finditer all_text) ([], 0, [])") auto
  from assms(1) r have "ph \<in> set phs" by (simp add: cal_render_position_def)
  with render_matches_values [OF r] have
    "rendered_value ph = context_get_str str_of context (placeholder ph)"
    "rendered_length ph = int (length (rendered_value ph))" by auto
  with assms(2) as show ?thesis
    by (simp add: context_get_str_def)
qed

theorem missing_key_empty_value_witness:
  "cal_render_position (\<lambda>v::string. v) Map.empty ''a{{ unknown }}b'' =
     (''ab'', [\<lparr>original_start = 1, original_length = 13, rendered_start = 1,
               rendered_length = 0, placeholder = ''unknown'', rendered_value = []\<rparr>])
   \<and> (Map.empty :: string \<rightharpoonup> string) ''unknown'' = None
   \<and> rendered_value \<lparr>original_start = 1, original_length = 13, rendered_start = 1,
               rendered_length = 0, placeholder = ''unknown'', rendered_value = []\<rparr> = []"
proof -
  let ?ph = "\<lparr>original_start = 1, original_length = 13, rendered_start = 1,
               rendered_length = 0, placeholder = ''unknown'', rendered_value = []\<rparr>"
  have e: "cal_render_position (\<lambda>v::string. v) Map.empty ''a{{ unknown }}b'' = (''ab'', [?ph])"
    by (simp add: render_eval)
  have h1: "?ph \<in> set (snd (cal_render_position (\<lambda>v::string. v) Map.empty ''a{{ unknown }}b''))"
    by (simp add: e)
  have h2: "(Map.empty :: string \<rightharpoonup> string) (placeholder ?ph) = None" by simp
  show ?thesis
    using e missing_key_empty_value [OF h1 h2] by simp
qed

section \<open>An occurrence that overlaps no run\<close>

text \<open>
  Claim C9. When the total overlap length of an occurrence is zero, \<open>_allocate_rendered_value\<close>
  returns \<open>new_texts\<close> as it received it, with no error, and the loop over the occurrences
  goes on with the next occurrence from the end of the span.
\<close>

theorem no_overlap_skips_distribution:
  assumes "snd (cover_loop text_position_list 0 (original_start ph)
                  (original_start ph + original_length ph) ([], 0)) = 0"
      and "copy_non_placeholder new_texts text_position_list all_text current_pos
             (original_start ph) = Some (Inr new_texts1)"
  shows "allocate_rendered_value new_texts1 text_position_list ph (original_start ph)
           (original_start ph + original_length ph) = Inr new_texts1
         \<and> placeholder_loop text_position_list all_text (ph # phs) new_texts current_pos
           = placeholder_loop text_position_list all_text phs new_texts1
               (original_start ph + original_length ph)"
proof -
  have a: "allocate_rendered_value new_texts1 text_position_list ph (original_start ph)
             (original_start ph + original_length ph) = Inr new_texts1"
    using assms(1)
    by (cases "cover_loop text_position_list 0 (original_start ph)
                 (original_start ph + original_length ph) ([], 0)")
       (simp add: allocate_rendered_value_def)
  show ?thesis using a assms(2) by (simp add: Let_def)
qed

theorem no_overlap_skips_distribution_witness:
  "snd (cover_loop [\<lparr>start = 0, len = 3, run = 0\<rparr>] 0 1 (1 + 0) ([], 0)) = 0
   \<and> copy_non_placeholder [ [] ] [\<lparr>start = 0, len = 3, run = 0\<rparr>] ''abc'' 0 1 = Some (Inr [''a''])
   \<and> allocate_rendered_value [''a''] [\<lparr>start = 0, len = 3, run = 0\<rparr>]
         \<lparr>original_start = 1, original_length = 0, rendered_start = 1, rendered_length = 2,
          placeholder = ''k'', rendered_value = ''xy''\<rparr> 1 (1 + 0) = Inr [''a'']
   \<and> placeholder_loop [\<lparr>start = 0, len = 3, run = 0\<rparr>] ''abc''
         [\<lparr>original_start = 1, original_length = 0, rendered_start = 1, rendered_length = 2,
           placeholder = ''k'', rendered_value = ''xy''\<rparr>] [ [] ] 0 = Some (Inr ([''a''], 1))"
proof -
  let ?tpl = "[\<lparr>start = 0, len = 3, run = 0\<rparr>]"
  let ?ph = "\<lparr>original_start = 1, original_length = 0, rendered_start = 1, rendered_length = 2,
           placeholder = ''k'', rendered_value = ''xy''\<rparr>"
  have h1: "snd (cover_loop ?tpl 0 (original_start ?ph)
                  (original_start ?ph + original_length ?ph) ([], 0)) = 0"
    by simp
  have h2: "copy_non_placeholder [ [] ] ?tpl ''abc'' 0 (original_start ?ph) = Some (Inr [''a''])"
    by (simp add: copy_non_placeholder_def copy_loop.simps py_slice_def)
  show ?thesis
    using h1 h2 no_overlap_skips_distribution [OF h1 h2, of "[]"]
    by simp
qed

section \<open>The concatenation invariant\<close>

text \<open>
  Claim C1, as stated, fails. The paragraph has the one run \<open>{{k}}\<close>, and the value of \<open>k\<close>
  is \<open>a\<close>, the control character \<open>x0B\<close>, \<open>b\<close>. The rendered text is that value, of three
  characters. The setter of \<open>run.text\<close> stores the control character as its escape, so the
  text of the run after the call is \<open>a_x000B_b\<close>, of nine characters.
\<close>

theorem reflow_concatenation_counterexample:
  "fst (cal_render_position (\<lambda>v::string. v) [''k'' \<mapsto> [CHR ''a'', CHR 0x0B, CHR ''b'']]
          (concat (map run_text [\<lparr>run_text = ''{{k}}'', run_style = ()\<rparr>])))
     = [CHR ''a'', CHR 0x0B, CHR ''b'']
   \<and> replace_paragraph_runs (\<lambda>v::string. v) [''k'' \<mapsto> [CHR ''a'', CHR 0x0B, CHR ''b'']]
         [\<lparr>run_text = ''{{k}}'', run_style = ()\<rparr>]
       = Some (Inr [\<lparr>run_text = ''a_x000B_b'', run_style = ()\<rparr>])
   \<and> concat (map run_text [\<lparr>run_text = ''a_x000B_b'', run_style = ()\<rparr>])
       \<noteq> [CHR ''a'', CHR 0x0B, CHR ''b'']"
  by (simp add: reflow_eval render_eval float_eval)

text \<open>
  Claim C1, amended. For every paragraph, \<open>replace_paragraph_runs\<close> returns, with no error.
  When the paragraph has a placeholder, the texts of the runs after the call, concatenated
  in run order, are the rendered text that \<open>cal_render_position\<close> gives for the concatenation
  of the texts before the call, with every control character in \<open>x00-x08\<close> and \<open>x0B-x1F\<close>
  replaced by its escape \<open>_xHHHH_\<close>, as the setter of \<open>run.text\<close> stores it; when it has none,
  they are the rendered text itself, which is the source text. So they are exactly the
  rendered text whenever it has no such control character, and the text is cut into one
  piece per run: every character of it is in exactly one run.
\<close>

theorem reflow_concatenation:
  "\<exists>runs'. replace_paragraph_runs str_of context runs = Some (Inr runs')
     \<and> concat (map run_text runs')
         = (if snd (cal_render_position str_of context (concat (map run_text runs))) = []
            then fst (cal_render_position str_of context (concat (map run_text runs)))
            else escape_ctrl_chars
                   (fst (cal_render_position str_of context (concat (map run_text runs)))))
     \<and> ((\<forall>c \<in> set (fst (cal_render_position str_of context (concat (map run_text runs)))).
            \<not> is_ctrl_char c)
          \<longrightarrow> concat (map run_text runs')
              = fst (cal_render_position str_of context (concat (map run_text runs))))"
proof -
  define rendered where
    "rendered = fst (cal_render_position str_of context (concat (map run_text runs)))"
  define phs where
    "phs = snd (cal_render_position str_of context (concat (map run_text runs)))"
  from replace_paragraph_runs_total [of runs str_of "context"]
  obtain wt where wt: "length wt = length runs"
    "replace_paragraph_runs str_of context runs
       = Some (Inr (map2 (\<lambda>r t. r\<lparr>run_text := t\<rparr>) runs wt))"
    "concat wt = (if phs = [] then rendered else escape_ctrl_chars rendered)"
    unfolding rendered_def phs_def by blast
  define runs' where "runs' = map2 (\<lambda>r t. r\<lparr>run_text := t\<rparr>) runs wt"
  have "map run_text runs' = wt"
    unfolding runs'_def using wt(1) by (rule map2_run_text)
  with wt(3) have c: "concat (map run_text runs')
      = (if phs = [] then rendered else escape_ctrl_chars rendered)"
    by (simp only:)
  have p: "(\<forall>c \<in> set rendered. \<not> is_ctrl_char c) \<longrightarrow> concat (map run_text runs') = rendered"
    using c by (simp add: escape_ctrl_chars_plain)
  have r: "replace_paragraph_runs str_of context runs = Some (Inr runs')"
    using wt(2) by (simp only: runs'_def)
  from r c p show ?thesis
    unfolding rendered_def phs_def by blast
qed

theorem reflow_concatenation_witness:
  "replace_paragraph_runs (\<lambda>v::string. v) [''a'' \<mapsto> ''1'', ''b'' \<mapsto> ''2'']
     [\<lparr>run_text = ''{{a'', run_style = ()\<rparr>, \<lparr>run_text = ''}} and {'', run_style = ()\<rparr>,
      \<lparr>run_text = ''{b}}'', run_style = ()\<rparr>]
   = Some (Inr [\<lparr>run_text = ''1'', run_style = ()\<rparr>, \<lparr>run_text = '' and '', run_style = ()\<rparr>,
                \<lparr>run_text = ''2'', run_style = ()\<rparr>])
   \<and> fst (cal_render_position (\<lambda>v::string. v) [''a'' \<mapsto> ''1'', ''b'' \<mapsto> ''2'']
          (concat (map run_text
             [\<lparr>run_text = ''{{a'', run_style = ()\<rparr>, \<lparr>run_text = ''}} and {'', run_style = ()\<rparr>,
              \<lparr>run_text = ''{b}}'', run_style = ()\<rparr>])))
       = ''1 and 2''"
  using reflow_concatenation [of "\<lambda>v::string. v" "[''a'' \<mapsto> ''1'', ''b'' \<mapsto> ''2'']"
      "[\<lparr>run_text = ''{{a'', run_style = ()\<rparr>, \<lparr>run_text = ''}} and {'', run_style = ()\<rparr>,
        \<lparr>run_text = ''{b}}'', run_style = ()\<rparr>]"]
  by (simp add: reflow_eval render_eval float_eval)

section \<open>Runs and styles\<close>

text \<open>
  Claim C6. The call returns a list with as many runs as the paragraph had, in the same
  order and with the same styles: only the texts can differ. The style has a type of its
  own that no function here inspects. A run that receives no text is kept, with the empty
  text, as the run \<open>{{x}}\<close> of the example below.
\<close>

theorem reflow_keeps_runs_and_styles:
  "\<exists>runs'. replace_paragraph_runs str_of context runs = Some (Inr runs')
     \<and> length runs' = length runs \<and> map run_style runs' = map run_style runs"
proof -
  from replace_paragraph_runs_total [of runs str_of "context"]
  obtain nt where nt: "length nt = length runs"
    "replace_paragraph_runs str_of context runs
       = Some (Inr (map2 (\<lambda>r t. r\<lparr>run_text := t\<rparr>) runs nt))"
    by blast
  have "map run_style (map2 (\<lambda>r t. r\<lparr>run_text := t\<rparr>) runs nt) = map run_style runs"
    using nt(1) by (rule map2_run_style)
  moreover have "length (map2 (\<lambda>r t. r\<lparr>run_text := t\<rparr>) runs nt) = length runs"
    using nt(1) by simp
  ultimately show ?thesis using nt(2) by blast
qed

theorem reflow_keeps_runs_and_styles_witness:
  "replace_paragraph_runs (\<lambda>v::string. v) Map.empty
     [\<lparr>run_text = ''{{x}}'', run_style = ''bold''\<rparr>, \<lparr>run_text = ''abc'', run_style = ''plain''\<rparr>]
   = Some (Inr [\<lparr>run_text = [], run_style = ''bold''\<rparr>,
                \<lparr>run_text = ''abc'', run_style = ''plain''\<rparr>])"
  using reflow_keeps_runs_and_styles [of "\<lambda>v::string. v" Map.empty
      "[\<lparr>run_text = ''{{x}}'', run_style = ''bold''\<rparr>, \<lparr>run_text = ''abc'', run_style = ''plain''\<rparr>]"]
  by (simp add: reflow_eval render_eval float_eval)

section \<open>The whole value is placed\<close>

text \<open>
  Claim C2. For the positions of any list of runs and any span
  \<open>orig_start \<le> x < orig_end\<close> inside their text, \<open>_allocate_rendered_value\<close>, started on
  empty texts, returns with no error, and the portions it has handed to the runs,
  concatenated in run order, are the value of the occurrence: nothing is lost and nothing
  is repeated, whatever the rounded shares are.
\<close>

theorem full_value_placement:
  assumes "0 \<le> orig_start" and "orig_start < orig_end"
      and "orig_end \<le> int (length (concat (map run_text runs)))"
      and "rendered_length ph = int (length (rendered_value ph))"
  shows "\<exists>new_texts.
           allocate_rendered_value (replicate (length runs) []) (build_positions runs 0 0) ph
             orig_start orig_end = Inr new_texts
           \<and> concat new_texts = rendered_value ph"
proof -
  define tpl where "tpl = build_positions runs 0 0"
  have ch: "chain 0 tpl" unfolding tpl_def by (rule chain_build_positions)
  have ln: "length (replicate (length runs) ([]::string)) = length tpl" by (simp add: tpl_def)
  have oe: "orig_end \<le> total_len tpl"
    using assms(3) by (simp add: tpl_def total_len_build_positions)
  have tc: "tail_clear tpl (replicate (length runs) []) orig_start"
    using tail_clear_replicate [of tpl orig_start] by (simp add: tpl_def)
  from allocate_rendered_value_total [OF ch ln assms(1,2) oe tc assms(4)]
  show ?thesis by (auto simp: tpl_def)
qed

theorem full_value_placement_witness:
  "(0::int) \<le> 0 \<and> (0::int) < 10
   \<and> (10::int) \<le> int (length (concat (map run_text
         [\<lparr>run_text = ''{{a'', run_style = ()\<rparr>, \<lparr>run_text = ''bcd'', run_style = ()\<rparr>,
          \<lparr>run_text = ''ef}'', run_style = ()\<rparr>, \<lparr>run_text = ''}'', run_style = ()\<rparr>])))
   \<and> allocate_rendered_value [ [], [], [], [] ]
         (build_positions [\<lparr>run_text = ''{{a'', run_style = ()\<rparr>, \<lparr>run_text = ''bcd'', run_style = ()\<rparr>,
          \<lparr>run_text = ''ef}'', run_style = ()\<rparr>, \<lparr>run_text = ''}'', run_style = ()\<rparr>] 0 0)
         \<lparr>original_start = 0, original_length = 10, rendered_start = 0, rendered_length = 2,
          placeholder = ''abcdef'', rendered_value = ''xy''\<rparr> 0 10
       = Inr [''x'', ''y'', [], []]
   \<and> concat [''x'', ''y'', [], []] = ''xy''"
proof -
  let ?runs = "[\<lparr>run_text = ''{{a'', run_style = ()\<rparr>, \<lparr>run_text = ''bcd'', run_style = ()\<rparr>,
          \<lparr>run_text = ''ef}'', run_style = ()\<rparr>, \<lparr>run_text = ''}'', run_style = ()\<rparr>]"
  let ?ph = "\<lparr>original_start = 0, original_length = 10, rendered_start = 0, rendered_length = 2,
          placeholder = ''abcdef'', rendered_value = ''xy''\<rparr>"
  have h1: "(0::int) \<le> 0" by simp
  have h2: "(0::int) < 10" by simp
  have h3: "(10::int) \<le> int (length (concat (map run_text ?runs)))" by simp
  have h4: "rendered_length ?ph = int (length (rendered_value ?ph))" by simp
  have e: "allocate_rendered_value [ [], [], [], [] ] (build_positions ?runs 0 0) ?ph 0 10
           = Inr [''x'', ''y'', [], []]"
    by (simp add: allocate_rendered_value_def float_eval py_slice_def Let_def)
  show ?thesis
    using full_value_placement [OF h1 h2 h3 h4] e by simp
qed

section \<open>The share of each run\<close>

text \<open>
  Claim C3, as stated, fails. The placeholder \<open>{{abcdef}}\<close> is cut over four runs that
  cover 3, 3, 3 and 1 of its characters, and its value is \<open>xy\<close>. Each of the first three
  runs has the share \<open>round(3 / 10 * 2) = 1\<close>. The first two take \<open>x\<close> and \<open>y\<close>; the third,
  which is not the last, takes the slice \<open>rend_value[2:3]\<close>, which is empty: it receives
  no character, not one.
\<close>

theorem proportional_allocation_counterexample:
  "cover_loop (build_positions [\<lparr>run_text = ''{{a'', run_style = ()\<rparr>, \<lparr>run_text = ''bcd'', run_style = ()\<rparr>,
          \<lparr>run_text = ''ef}'', run_style = ()\<rparr>, \<lparr>run_text = ''}'', run_style = ()\<rparr>] 0 0) 0 0 10 ([], 0)
     = ([(0, 3), (1, 3), (2, 3), (3, 1)], 10)
   \<and> py_truediv 3 10 = Inr (5404319552844595, - 54)
   \<and> py_round (py_float_mul_int (5404319552844595, - 54) 2) = 1
   \<and> allocate_rendered_value [ [], [], [], [] ]
         (build_positions [\<lparr>run_text = ''{{a'', run_style = ()\<rparr>, \<lparr>run_text = ''bcd'', run_style = ()\<rparr>,
          \<lparr>run_text = ''ef}'', run_style = ()\<rparr>, \<lparr>run_text = ''}'', run_style = ()\<rparr>] 0 0)
         \<lparr>original_start = 0, original_length = 10, rendered_start = 0, rendered_length = 2,
          placeholder = ''abcdef'', rendered_value = ''xy''\<rparr> 0 10
       = Inr [''x'', ''y'', [], []]
   \<and> length ([''x'', ''y'', [], []] ! 2 :: string) \<noteq> 1"
  by (simp add: allocate_rendered_value_def float_eval py_slice_def Let_def)

text \<open>
  Claim C3, amended. Every covered run but the last receives the next
  \<open>round(part_len / total_covered_len * rend_len)\<close> characters of the value that are not
  handed out yet, or all of those that are left when there are fewer; the last covered
  run receives all that is left then, which is nothing when the earlier shares already
  add up to the length of the value or more. The function \<open>portions\<close> says this, and
  \<open>_allocate_rendered_value\<close> appends exactly these portions.
\<close>

theorem proportional_allocation:
  assumes "0 \<le> orig_start" and "orig_start < orig_end"
      and "orig_end \<le> int (length (concat (map run_text runs)))"
      and "rendered_length ph = int (length (rendered_value ph))"
      and "length new_texts = length runs"
      and "cover_loop (build_positions runs 0 0) 0 orig_start orig_end ([], 0)
           = (covered_runs, total_covered_len)"
  shows "allocate_rendered_value new_texts (build_positions runs 0 0) ph orig_start orig_end
         = Inr (append_portions new_texts
                  (portions covered_runs total_covered_len (rendered_value ph) 0))"
proof -
  define tpl where "tpl = build_positions runs 0 0"
  have ch: "chain 0 tpl" unfolding tpl_def by (rule chain_build_positions)
  have ln: "length new_texts = length tpl" using assms(5) by (simp add: tpl_def)
  have oe: "orig_end \<le> total_len tpl"
    using assms(3) by (simp add: tpl_def total_len_build_positions)
  from allocate_rendered_value_portions [OF ch ln assms(1,2) oe assms(4) assms(6) [folded tpl_def]]
  show ?thesis by (simp add: tpl_def)
qed

theorem proportional_allocation_witness:
  "(0::int) \<le> 0 \<and> (0::int) < 10
   \<and> cover_loop (build_positions [\<lparr>run_text = ''{{a'', run_style = ()\<rparr>, \<lparr>run_text = ''bcd'', run_style = ()\<rparr>,
          \<lparr>run_text = ''ef}'', run_style = ()\<rparr>, \<lparr>run_text = ''}'', run_style = ()\<rparr>] 0 0) 0 0 10 ([], 0)
       = ([(0, 3), (1, 3), (2, 3), (3, 1)], 10)
   \<and> portions [(0, 3), (1, 3), (2, 3), (3, 1)] 10 ''xy'' 0 = [(0, ''x''), (1, ''y''), (2, []), (3, [])]
   \<and> allocate_rendered_value [ [], [], [], [] ]
         (build_positions [\<lparr>run_text = ''{{a'', run_style = ()\<rparr>, \<lparr>run_text = ''bcd'', run_style = ()\<rparr>,
          \<lparr>run_text = ''ef}'', run_style = ()\<rparr>, \<lparr>run_text = ''}'', run_style = ()\<rparr>] 0 0)
         \<lparr>original_start = 0, original_length = 10, rendered_start = 0, rendered_length = 2,
          placeholder = ''abcdef'', rendered_value = ''xy''\<rparr> 0 10
       = Inr [''x'', ''y'', [], []]"
proof -
  let ?runs = "[\<lparr>run_text = ''{{a'', run_style = ()\<rparr>, \<lparr>run_text = ''bcd'', run_style = ()\<rparr>,
          \<lparr>run_text = ''ef}'', run_style = ()\<rparr>, \<lparr>run_text = ''}'', run_style = ()\<rparr>]"
  let ?ph = "\<lparr>original_start = 0, original_length = 10, rendered_start = 0, rendered_length = 2,
          placeholder = ''abcdef'', rendered_value = ''xy''\<rparr>"
  have h1: "(0::int) \<le> 0" by simp
  have h2: "(0::int) < 10" by simp
  have h3: "(10::int) \<le> int (length (concat (map run_text ?runs)))" by simp
  have h4: "rendered_length ?ph = int (length (rendered_value ?ph))" by simp
  have h5: "length [ [], [], [], []::string] = length ?runs" by simp
  have h6: "cover_loop (build_positions ?runs 0 0) 0 0 10 ([], 0)
            = ([(0, 3), (1, 3), (2, 3), (3, 1)], 10)" by simp
  have s: "share 3 10 2 = 1" by (simp add: share_def float_eval Let_def)
  have p: "portions [(0, 3), (1, 3), (2, 3), (3, 1)] 10 ''xy'' 0
           = [(0, ''x''), (1, ''y''), (2, []), (3, [])]"
    by (simp add: s)
  show ?thesis
    using proportional_allocation [OF h1 h2 h3 h4 h5 h6] h6 p by simp
qed

section \<open>Runs without text\<close>

text \<open>
  Claim C10. A run whose text is empty before the call has the empty text after it. The
  gap copy never picks such a run: a pass of the inner loop leaves its text as it was.
  The run can be among the covered runs of an occurrence, with overlap length 0 and
  hence the share 0, and it is never the last covered run, the one that takes the rest
  of the value: the last covered run always has text.
\<close>

theorem empty_runs_stay_empty:
  "(\<exists>runs'. replace_paragraph_runs str_of context runs = Some (Inr runs')
      \<and> length runs' = length runs
      \<and> (\<forall>k < length runs. run_text (runs ! k) = [] \<longrightarrow> run_text (runs' ! k) = []))
   \<and> (\<forall>nt nt' c c' e k. copy_scan nt (build_positions runs 0 0) 0 all_text c e = Inr (nt', c')
        \<longrightarrow> k < length runs \<longrightarrow> run_text (runs ! k) = [] \<longrightarrow> nt' ! k = nt ! k)
   \<and> (\<forall>os oe. oe \<le> int (length (concat (map run_text runs)))
        \<longrightarrow> fst (cover_loop (build_positions runs 0 0) 0 os oe ([], 0)) \<noteq> []
        \<longrightarrow> run_text (runs ! fst (last (fst (cover_loop (build_positions runs 0 0) 0 os oe ([], 0)))))
            \<noteq> [])"
proof (intro conjI allI impI)
  from replace_paragraph_runs_total [of runs str_of "context"]
  obtain nt where nt: "length nt = length runs"
    "replace_paragraph_runs str_of context runs
       = Some (Inr (map2 (\<lambda>r t. r\<lparr>run_text := t\<rparr>) runs nt))"
    "\<forall>k < length runs. run_text (runs ! k) = [] \<longrightarrow> nt ! k = []"
    by blast
  have "\<forall>k < length runs. run_text (map2 (\<lambda>r t. r\<lparr>run_text := t\<rparr>) runs nt ! k) = nt ! k"
    using nt(1) by simp
  with nt(3) have "\<forall>k < length runs. run_text (runs ! k) = []
      \<longrightarrow> run_text (map2 (\<lambda>r t. r\<lparr>run_text := t\<rparr>) runs nt ! k) = []"
    by simp
  moreover have "length (map2 (\<lambda>r t. r\<lparr>run_text := t\<rparr>) runs nt) = length runs"
    using nt(1) by simp
  ultimately show "\<exists>runs'. replace_paragraph_runs str_of context runs = Some (Inr runs')
      \<and> length runs' = length runs
      \<and> (\<forall>k < length runs. run_text (runs ! k) = [] \<longrightarrow> run_text (runs' ! k) = [])"
    using nt(2) by blast
next
  fix nt nt' c c' e k
  assume s: "copy_scan nt (build_positions runs 0 0) 0 all_text c e = Inr (nt', c')"
    and k: "k < length runs" and z: "run_text (runs ! k) = []"
  have "len (build_positions runs 0 0 ! (k - 0)) = 0"
    using nth_build_positions_len [OF k, of 0 0] z by simp
  from copy_scan_skips_empty [OF s _ _ this] k show "nt' ! k = nt ! k" by simp
next
  fix os oe
  define tpl where "tpl = build_positions runs 0 0"
  assume oe: "oe \<le> int (length (concat (map run_text runs)))"
    and ne: "fst (cover_loop (build_positions runs 0 0) 0 os oe ([], 0)) \<noteq> []"
  have cl: "fst (cover_loop tpl 0 os oe ([], 0)) = covered tpl 0 os oe"
    by (simp add: cover_loop_covered)
  have ch: "chain 0 tpl" unfolding tpl_def by (rule chain_build_positions)
  have oe': "oe \<le> 0 + total_len tpl" using oe by (simp add: tpl_def total_len_build_positions)
  have ne': "covered tpl 0 os oe \<noteq> []" using ne cl by (simp add: tpl_def)
  define i where "i = fst (last (covered tpl 0 os oe))"
  from covered_last_nonempty [OF ch oe' ne'] have l: "0 < len (tpl ! i)" by (simp add: i_def)
  have "(i, snd (last (covered tpl 0 os oe))) \<in> set (covered tpl 0 os oe)"
    using ne' by (simp add: i_def)
  from covered_mem [OF this] have "i < length runs" by (simp add: tpl_def)
  from nth_build_positions_len [OF this, of 0 0] l have "run_text (runs ! i) \<noteq> []"
    by (auto simp: tpl_def)
  then show "run_text (runs ! fst (last (fst (cover_loop (build_positions runs 0 0) 0 os oe ([], 0))))) \<noteq> []"
    using cl by (simp add: i_def tpl_def)
qed

theorem empty_runs_stay_empty_witness:
  "replace_paragraph_runs (\<lambda>v::string. v) [''ab'' \<mapsto> ''xyz'']
     [\<lparr>run_text = ''{{a'', run_style = ()\<rparr>, \<lparr>run_text = [], run_style = ()\<rparr>,
      \<lparr>run_text = ''b}}'', run_style = ()\<rparr>]
   = Some (Inr [\<lparr>run_text = ''xy'', run_style = ()\<rparr>, \<lparr>run_text = [], run_style = ()\<rparr>,
                \<lparr>run_text = ''z'', run_style = ()\<rparr>])
   \<and> fst (cover_loop (build_positions
         [\<lparr>run_text = ''{{a'', run_style = ()\<rparr>, \<lparr>run_text = [], run_style = ()\<rparr>,
          \<lparr>run_text = ''b}}'', run_style = ()\<rparr>] 0 0) 0 0 6 ([], 0))
       = [(0, 3), (1, 0), (2, 3)]"
proof -
  let ?runs = "[\<lparr>run_text = ''{{a'', run_style = ()\<rparr>, \<lparr>run_text = [], run_style = ()\<rparr>,
      \<lparr>run_text = ''b}}'', run_style = ()\<rparr>]"
  have e: "replace_paragraph_runs (\<lambda>v::string. v) [''ab'' \<mapsto> ''xyz''] ?runs
   = Some (Inr [\<lparr>run_text = ''xy'', run_style = ()\<rparr>, \<lparr>run_text = [], run_style = ()\<rparr>,
                \<lparr>run_text = ''z'', run_style = ()\<rparr>])"
    by (simp add: reflow_eval render_eval float_eval)
  from empty_runs_stay_empty [of "\<lambda>v::string. v" "[''ab'' \<mapsto> ''xyz'']" ?runs "''{{a'' @ ''b}}''"]
  have "\<exists>runs'. replace_paragraph_runs (\<lambda>v::string. v) [''ab'' \<mapsto> ''xyz''] ?runs = Some (Inr runs')
      \<and> length runs' = length ?runs
      \<and> (\<forall>k < length ?runs. run_text (?runs ! k) = [] \<longrightarrow> run_text (runs' ! k) = [])"
    by (rule conjunct1)
  with e show ?thesis by simp
qed

section \<open>The placeholder syntax\<close>

text \<open>
  Claim C4, as stated, fails. In \<open>{{}}}\<close> the first two closing braces after the opening
  braces begin right after them, and the claim has them close a match with empty content;
  the pattern needs one character of content at least, so its match is the whole of
  \<open>{{}}}\<close>, with the content \<open>}\<close>. With a newline in the content, as in \<open>{{a\<close>, newline,
  \<open>b}}\<close>, the pattern has no match at all.
\<close>

theorem placeholder_matching_counterexample:
  "finditer ''{{}}}'' = [\<lparr>m_start = 0, m_end = 5, m_group1 = ''}''\<rparr>]
   \<and> spec_finditer ''{{}}}'' = [\<lparr>m_start = 0, m_end = 4, m_group1 = []\<rparr>]
   \<and> finditer ''{{}}}'' \<noteq> spec_finditer ''{{}}}''
   \<and> finditer [CHR ''{'', CHR ''{'', CHR ''a'', CHR 0x0A, CHR ''b'', CHR ''}'', CHR ''}''] = []
   \<and> spec_finditer [CHR ''{'', CHR ''{'', CHR ''a'', CHR 0x0A, CHR ''b'', CHR ''}'', CHR ''}'']
       = [\<lparr>m_start = 0, m_end = 7, m_group1 = [CHR ''a'', CHR 0x0A, CHR ''b'']\<rparr>]"
  by (simp add: finditer_def match_here_def spec_finditer_def spec_match_here_def)

text \<open>
  Claim C4, amended. The pattern matches at a position exactly when the text there is
  two opening braces, a content that is not empty and has no newline, and two closing
  braces that are the first to begin at least one character after the opening braces.
  \<open>finditer\<close> reports such matches only, from left to right and without overlap, and
  every position where the pattern matches is the start of a reported match or lies
  inside one. The key of each occurrence is the content of its match with the whitespace
  at both ends removed.
\<close>

theorem placeholder_matching:
  "(match_here s = Some g \<longleftrightarrow> is_placeholder s g)
   \<and> matches_ok 0 (int (length all_text)) (finditer all_text)
   \<and> (\<forall>m \<in> set (finditer all_text). \<exists>p < length all_text.
         m_start m = int p \<and> m_end m = int p + 4 + int (length (m_group1 m))
         \<and> is_placeholder (drop p all_text) (m_group1 m))
   \<and> (\<forall>p g. p < length all_text \<and> is_placeholder (drop p all_text) g \<longrightarrow>
         (\<exists>m \<in> set (finditer all_text). m_start m \<le> int p \<and> int p < m_end m))
   \<and> map placeholder (snd (cal_render_position str_of context all_text))
       = map (\<lambda>m. py_strip (m_group1 m)) (finditer all_text)"
proof (intro conjI ballI allI impI)
  show "match_here s = Some g \<longleftrightarrow> is_placeholder s g" by (rule match_here_is_placeholder)
next
  show "matches_ok 0 (int (length all_text)) (finditer all_text)"
    using finditer_from_ok [of 0 all_text] by (simp add: finditer_def)
next
  fix m assume "m \<in> set (finditer all_text)"
  then have "m \<in> set (finditer_from 0 all_text)" by (simp add: finditer_def)
  from finditer_from_sound [OF this]
  show "\<exists>p < length all_text. m_start m = int p \<and> m_end m = int p + 4 + int (length (m_group1 m))
         \<and> is_placeholder (drop p all_text) (m_group1 m)"
    by (auto simp: match_here_is_placeholder)
next
  fix p g assume a: "p < length all_text \<and> is_placeholder (drop p all_text) g"
  then have "match_here (drop p all_text) = Some g" by (simp add: match_here_is_placeholder)
  from finditer_from_complete [OF _ this, of 0] a
  show "\<exists>m \<in> set (finditer all_text). m_start m \<le> int p \<and> int p < m_end m"
    by (simp add: finditer_def)
next
  obtain rt le phs where r:
    "render_matches str_of context all_text (finditer all_text) ([], 0, []) = (rt, le, phs)"
    by (cases "render_matches str_of context all_text (finditer all_text) ([], 0, [])") auto
  have "map placeholder phs = map (\<lambda>m. py_strip (m_group1 m)) (finditer all_text)"
    using render_matches_keys [of str_of "context" all_text "finditer all_text" "[]" 0 "[]"] r
    by simp
  with r show "map placeholder (snd (cal_render_position str_of context all_text))
       = map (\<lambda>m. py_strip (m_group1 m)) (finditer all_text)"
    by (simp add: cal_render_position_def)
qed

theorem placeholder_matching_witness:
  "match_here ''{{ name }}!'' = Some '' name ''
   \<and> is_placeholder ''{{ name }}!'' '' name ''
   \<and> finditer ''Hi {{ name }}!'' = [\<lparr>m_start = 3, m_end = 13, m_group1 = '' name ''\<rparr>]
   \<and> map placeholder (snd (cal_render_position (\<lambda>v::string. v) Map.empty ''Hi {{ name }}!''))
       = [''name'']"
proof -
  have m: "match_here ''{{ name }}!'' = Some '' name ''"
    by (simp add: match_here_def)
  have f: "finditer ''Hi {{ name }}!'' = [\<lparr>m_start = 3, m_end = 13, m_group1 = '' name ''\<rparr>]"
    by (simp add: finditer_def match_here_def)
  from placeholder_matching [of "''{{ name }}!''" "'' name ''" "''Hi {{ name }}!''"
      "\<lambda>v::string. v" Map.empty]
  have a: "match_here ''{{ name }}!'' = Some '' name '' \<longleftrightarrow> is_placeholder ''{{ name }}!'' '' name ''"
    and k: "map placeholder (snd (cal_render_position (\<lambda>v::string. v) Map.empty ''Hi {{ name }}!''))
       = map (\<lambda>m. py_strip (m_group1 m)) (finditer ''Hi {{ name }}!'')"
    by blast+
  from a m have i: "is_placeholder ''{{ name }}!'' '' name ''" by simp
  have "map (\<lambda>m. py_strip (m_group1 m)) (finditer ''Hi {{ name }}!'') = [''name'']"
    by (simp add: f py_strip_def py_isspace_def)
  with k m i f show ?thesis by simp
qed

end
